theory Spec2Isabelle
  imports Complex_Main "HOL-Library.Sublist" "HOL-Library.AList" "HOL-Library.Log_Nat"
begin

section \<open>The replay engine of simmy.py\<close>

text \<open>
  A shallow embedding of the decision logic of \<^verbatim>\<open>simmy.py\<close>: the UI-state comparison,
  the coordinate translation, the region extractor, the matching cascade, the click
  retry policy and the replay loop. Python integers are \<^typ>\<open>int\<close>. The float arithmetic
  of the coordinate translation is IEEE binary64 arithmetic: a finite double is the real
  number it stands for, and every operation rounds its exact result to the nearest
  double, a tie to the even one, or overflows. The scores of the matchers and the
  timestamps are only compared and subtracted, and are taken as real numbers. An
  exception of the source is a value (\<open>Inl\<close> or \<open>None\<close>); a call into the platform (screen
  capture, OpenCV, OCR, mouse and keyboard) is a field of a record that describes the
  environment, and its failure is one of its results.
\<close>

subsection \<open>Python values\<close>

datatype py_error = ZeroDivisionError | OverflowError

text \<open>The nearest integer of a real number, a tie to the even one.\<close>

definition round_half_even :: "real \<Rightarrow> int" where
  "round_half_even v =
     (let f = \<lfloor>v\<rfloor>; d = v - real_of_int f
      in if d < 1 / 2 then f
         else if 1 / 2 < d then f + 1
         else if even f then f else f + 1)"

text \<open>
  A double is a finite value or an infinity. (The two zeros are not told apart: they
  stand for the same number and round to the same integer. No operation below yields a
  NaN: a product of two finite values and a sum with a finite value are finite or
  infinite.)
\<close>

datatype double = Fin real | PInf | MInf

text \<open>
  The binary exponent of a real number: the \<open>e\<close> with \<open>2\<^sup>e \<le> \<bar>x\<bar> < 2\<^sup>e\<^sup>+\<^sup>1\<close>, computed from
  the bit length of the integer part of \<open>\<bar>x\<bar>\<close>, or of \<open>1 / \<bar>x\<bar>\<close> below 1.
\<close>

definition float_exponent :: "real \<Rightarrow> int" where
  "float_exponent x =
     (if 1 \<le> \<bar>x\<bar> then bitlen \<lfloor>\<bar>x\<bar>\<rfloor> - 1 else - bitlen (\<lceil>1 / \<bar>x\<bar>\<rceil> - 1))"

text \<open>The least magnitude that no finite double reaches.\<close>

definition DBL_LIMIT :: real where
  "DBL_LIMIT = 2 ^ 1024"

text \<open>
  Rounding to binary64, nearest with ties to even: a significand of 53 bits, so the
  spacing of the doubles around \<open>x\<close> is \<open>2\<^sup>e\<^sup>-\<^sup>5\<^sup>2\<close>, and no finer than \<open>2\<^sup>-\<^sup>1\<^sup>0\<^sup>7\<^sup>4\<close> (the
  subnormal numbers); a result of magnitude \<open>2\<^sup>1\<^sup>0\<^sup>2\<^sup>4\<close> or more is an overflow.
\<close>

definition to_double :: "real \<Rightarrow> double" where
  "to_double x =
     (let q = 2 powi (max (float_exponent x) (- 1022) - 52);
          y = real_of_int (round_half_even (x / q)) * q
      in if DBL_LIMIT \<le> y then PInf
         else if y \<le> - DBL_LIMIT then MInf
         else Fin y)"

text \<open>
  \<^verbatim>\<open>a / b\<close> on two integers: the correctly rounded quotient; \<^verbatim>\<open>ZeroDivisionError\<close> for
  a zero divisor, \<^verbatim>\<open>OverflowError\<close> when the quotient is too large for a float.
\<close>

definition py_truediv :: "int \<Rightarrow> int \<Rightarrow> py_error + real" where
  "py_truediv a b =
     (if b = 0 then Inl ZeroDivisionError
      else case to_double (real_of_int a / real_of_int b) of
             Fin v \<Rightarrow> Inr v
           | PInf \<Rightarrow> Inl OverflowError
           | MInf \<Rightarrow> Inl OverflowError)"

text \<open>
  The conversion of an integer operand of \<^verbatim>\<open>int * float\<close> or \<^verbatim>\<open>int + float\<close>:
  the nearest double, \<^verbatim>\<open>OverflowError\<close> for an integer too large to convert.
\<close>

definition py_float :: "int \<Rightarrow> py_error + real" where
  "py_float n =
     (case to_double (real_of_int n) of
        Fin v \<Rightarrow> Inr v
      | PInf \<Rightarrow> Inl OverflowError
      | MInf \<Rightarrow> Inl OverflowError)"

text \<open>The product of two finite doubles; it raises nothing and may be infinite.\<close>

definition float_mul :: "real \<Rightarrow> real \<Rightarrow> double" where
  "float_mul a b = to_double (a * b)"

text \<open>The sum of a finite double and a double.\<close>

fun float_add :: "real \<Rightarrow> double \<Rightarrow> double" where
  "float_add a (Fin b) = to_double (a + b)"
| "float_add a PInf = PInf"
| "float_add a MInf = MInf"

text \<open>
  \<^verbatim>\<open>int(round(v))\<close>: Python 3 rounds a float to the nearest integer, a tie to the even
  one, and raises \<^verbatim>\<open>OverflowError\<close> for an infinity.
\<close>

fun py_round :: "double \<Rightarrow> py_error + int" where
  "py_round (Fin v) = Inr (round_half_even v)"
| "py_round PInf = Inl OverflowError"
| "py_round MInf = Inl OverflowError"

text \<open>
  The truth value of an \<^verbatim>\<open>Optional[str]\<close>: \<^verbatim>\<open>None\<close> and the empty string are false.
\<close>

definition truthy :: "string option \<Rightarrow> bool" where
  "truthy v = (case v of None \<Rightarrow> False | Some s \<Rightarrow> s \<noteq> [])"

subsection \<open>UI state sampler\<close>

text \<open>
  \<^verbatim>\<open>_detect_ui_changes(before_hash, after_hash)\<close> is
  \<^verbatim>\<open>bool(before_hash and after_hash and before_hash != after_hash)\<close>.
\<close>

definition detect_ui_changes :: "string option \<Rightarrow> string option \<Rightarrow> bool" where
  "detect_ui_changes before_hash after_hash =
     (truthy before_hash \<and> truthy after_hash \<and> before_hash \<noteq> after_hash)"

text \<open>
  The hashes that reach this function are the \<^verbatim>\<open>screenshot_hash\<close> fields written by
  \<^verbatim>\<open>_capture_ui_state\<close>: \<^verbatim>\<open>None\<close>, or the result of \<^verbatim>\<open>_img_hash\<close>, the first 16
  characters of a SHA-256 hex digest. All that is used of a present hash is that it is
  not the empty string.
\<close>

definition fingerprint_hash :: "string option \<Rightarrow> bool" where
  "fingerprint_hash h = (case h of None \<Rightarrow> True | Some s \<Rightarrow> s \<noteq> [])"

subsection \<open>Geometry translator\<close>

text \<open>The scale factor of one axis, \<^verbatim>\<open>c_w / max(1, r_w)\<close> (lines 614 and 615).\<close>

definition scale :: "int \<Rightarrow> int \<Rightarrow> py_error + real" where
  "scale c r = py_truediv c (max 1 r)"

text \<open>
  One coordinate, \<^verbatim>\<open>int(round(c_x + local_x * sx))\<close> (lines 616 and 617): the offset
  is converted and multiplied by the factor, the origin is converted and added, and the
  sum is rounded to an integer.
\<close>

definition scaled_coord :: "int \<Rightarrow> int \<Rightarrow> real \<Rightarrow> py_error + int" where
  "scaled_coord c local s =
     (case py_float local of
        Inl e \<Rightarrow> Inl e
      | Inr lf \<Rightarrow>
          (case py_float c of
             Inl e \<Rightarrow> Inl e
           | Inr cf \<Rightarrow> py_round (float_add cf (float_mul lf s))))"

fun translate_coord ::
  "int \<times> int \<Rightarrow> int \<times> int \<times> int \<times> int \<Rightarrow> int \<times> int \<times> int \<times> int \<Rightarrow> py_error + int \<times> int" where
  "translate_coord (rx, ry) (r_x, r_y, r_w, r_h) (c_x, c_y, c_w, c_h) =
     (let local_x = rx - r_x;
          local_y = ry - r_y
      in case scale c_w r_w of
           Inl e \<Rightarrow> Inl e
         | Inr sx \<Rightarrow>
             (case scale c_h r_h of
                Inl e \<Rightarrow> Inl e
              | Inr sy \<Rightarrow>
                  (case scaled_coord c_x local_x sx of
                     Inl e \<Rightarrow> Inl e
                   | Inr nx \<Rightarrow>
                       (case scaled_coord c_y local_y sy of
                          Inl e \<Rightarrow> Inl e
                        | Inr ny \<Rightarrow> Inr (nx, ny)))))"

text \<open>An integer of magnitude at most \<open>2\<^sup>k\<close>.\<close>

definition fits :: "nat \<Rightarrow> int \<Rightarrow> bool" where
  "fits k v = (\<bar>v\<bar> \<le> 2 ^ k)"

subsection \<open>Recorded events and the replay environment\<close>

text \<open>
  A replayed event is the dictionary that \<^verbatim>\<open>EnhancedEvent.to_dict\<close> wrote to
  \<^verbatim>\<open>script.json\<close>; the record has the keys that replay reads, with the types of the
  dataclass. \<open>data_key\<close> and \<open>data_dy\<close> are \<^verbatim>\<open>data["key"]\<close> and \<^verbatim>\<open>data["dy"]\<close>
  with their defaults (the empty string and 0).
\<close>

record event =
  timestamp :: real
  action_type :: string
  ev_x :: int
  ev_y :: int
  data_key :: string
  data_dy :: int
  img_micro :: "string option"
  img_small :: "string option"
  img_medium :: "string option"
  img_large :: "string option"
  img_context :: "string option"
  ocr_text :: "string option"

text \<open>\<^verbatim>\<open>event.get(key)\<close> for the string-valued keys; a missing key gives \<^verbatim>\<open>None\<close>.\<close>

definition event_get :: "event \<Rightarrow> string \<Rightarrow> string option" where
  "event_get ev k =
     (if k = ''img_micro'' then img_micro ev
      else if k = ''img_small'' then img_small ev
      else if k = ''img_medium'' then img_medium ev
      else if k = ''img_large'' then img_large ev
      else if k = ''img_context'' then img_context ev
      else if k = ''ocr_text'' then ocr_text ev
      else None)"

text \<open>
  An image is known by its size and its pixel data; the matchers below are the only
  functions that look at the pixels.
\<close>

record image =
  img_width :: int
  img_height :: int
  img_data :: nat

text \<open>One row of \<^verbatim>\<open>pytesseract.image_to_data\<close>: a recognised text and its box.\<close>

record ocr_row =
  row_text :: string
  row_left :: int
  row_top :: int
  row_width :: int
  row_height :: int

text \<open>
  What one call of \<^verbatim>\<open>_try_find_click_target\<close> sees of the machine. Every field is
  the result of a library call; \<open>None\<close> is the library's own \<^verbatim>\<open>None\<close> or a raised
  exception, which each caller catches.
  \<^item> \<open>safe_screenshot\<close>: \<^verbatim>\<open>_safe_screenshot()\<close>;
  \<^item> \<open>path_exists\<close>: \<^verbatim>\<open>Path.exists\<close>;
  \<^item> \<open>imread\<close>: \<^verbatim>\<open>cv2.imread\<close>, \<open>None\<close> for a file that cannot be read;
  \<^item> \<open>match_template\<close>: \<^verbatim>\<open>cv2.matchTemplate\<close> then \<^verbatim>\<open>cv2.minMaxLoc\<close> on the
    screenshot and the template: the peak score \<open>max_val\<close> and its position
    \<open>max_loc\<close>; \<open>None\<close> when OpenCV raises, or when the score is not a number (it then
    compares false with every threshold);
  \<^item> \<open>image_open\<close>: \<^verbatim>\<open>Image.open(path).convert("RGB")\<close>, \<open>None\<close> when it raises;
  \<^item> \<open>orb_locate\<close>: lines 531 to 553 of \<^verbatim>\<open>_orb_match\<close> on the opened template and
    the screenshot (key points, ratio test, centroid and confidence), \<open>None\<close> when there
    are too few key points or good matches, or when OpenCV raises;
  \<^item> \<open>image_to_data\<close>: \<^verbatim>\<open>pytesseract.image_to_data\<close>, its columns zipped into rows.
\<close>

record world =
  cv2_available :: bool
  ocr_available :: bool
  safe_screenshot :: "image option"
  path_exists :: "string \<Rightarrow> bool"
  imread :: "string \<Rightarrow> image option"
  match_template :: "image \<Rightarrow> image \<Rightarrow> (real \<times> int \<times> int) option"
  image_open :: "string \<Rightarrow> image option"
  orb_locate :: "image \<Rightarrow> image \<Rightarrow> (int \<times> int \<times> real) option"
  image_to_data :: "image \<Rightarrow> ocr_row list option"

subsection \<open>Matching cascade\<close>

definition TEMPLATE_CONF_HIGH :: real where
  "TEMPLATE_CONF_HIGH = 85 / 100"

definition TEMPLATE_CONF_DEFAULT :: real where
  "TEMPLATE_CONF_DEFAULT = 78 / 100"

definition TEMPLATE_CONF_RELAXED :: real where
  "TEMPLATE_CONF_RELAXED = 62 / 100"

definition TEMPLATE_CONF_VERY_RELAXED :: real where
  "TEMPLATE_CONF_VERY_RELAXED = 45 / 100"

definition cv2_template_match ::
  "world \<Rightarrow> string \<Rightarrow> image \<Rightarrow> real \<Rightarrow> (int \<times> int \<times> real) option" where
  "cv2_template_match w template_path screenshot confidence =
     (if \<not> cv2_available w then None
      else case imread w template_path of
             None \<Rightarrow> None
           | Some template \<Rightarrow>
               (case match_template w screenshot template of
                  None \<Rightarrow> None
                | Some (max_val, max_loc_x, max_loc_y) \<Rightarrow>
                    if confidence \<le> max_val
                    then Some (max_loc_x + img_width template div 2,
                               max_loc_y + img_height template div 2,
                               max_val)
                    else None))"

definition orb_match :: "world \<Rightarrow> string \<Rightarrow> image \<Rightarrow> (int \<times> int \<times> real) option" where
  "orb_match w template_path screenshot =
     (if \<not> cv2_available w then None
      else case image_open w template_path of
             None \<Rightarrow> None
           | Some template \<Rightarrow> orb_locate w template screenshot)"

text \<open>The loop of \<^verbatim>\<open>_ocr_match\<close> over the recognised rows.\<close>

fun ocr_scan :: "string \<Rightarrow> ocr_row list \<Rightarrow> (int \<times> int \<times> real) option" where
  "ocr_scan target_text [] = None"
| "ocr_scan target_text (r # rs) =
     (if row_text r = [] then ocr_scan target_text rs
      else if sublist target_text (row_text r)
      then Some (row_left r + row_width r div 2,
                 row_top r + row_height r div 2,
                 if row_text r = target_text then 7 / 10 else 6 / 10)
      else ocr_scan target_text rs)"

definition ocr_match :: "world \<Rightarrow> string \<Rightarrow> image \<Rightarrow> (int \<times> int \<times> real) option" where
  "ocr_match w target_text screenshot =
     (if \<not> ocr_available w \<or> target_text = [] then None
      else case image_to_data w screenshot of
             None \<Rightarrow> None
           | Some rows \<Rightarrow> ocr_scan target_text rows)"

text \<open>
  The calls that \<^verbatim>\<open>_try_find_click_target\<close> makes to the three matchers, in the order
  it makes them: the model returns this trace beside the result.
\<close>

datatype attempt = Template string real | Feature string | Text

definition img_attrs :: "string list" where
  "img_attrs = [''img_small'', ''img_medium'', ''img_large'', ''img_micro'', ''img_context'']"

definition confs :: "real list" where
  "confs = [TEMPLATE_CONF_HIGH, TEMPLATE_CONF_DEFAULT, TEMPLATE_CONF_RELAXED,
            TEMPLATE_CONF_VERY_RELAXED]"

text \<open>
  \<^verbatim>\<open>Path(p).name\<close>, the last component of a path; trailing separators are ignored,
  as \<^verbatim>\<open>pathlib\<close> does. The stored paths are \<^verbatim>\<open>str(path)\<close> of a \<^verbatim>\<open>Path\<close> (line 252),
  which has no \<^verbatim>\<open>.\<close> component and no trailing separator.
\<close>

definition path_name :: "string \<Rightarrow> string" where
  "path_name p =
     rev (takeWhile (\<lambda>c. c \<noteq> CHR ''/'') (dropWhile (\<lambda>c. c = CHR ''/'') (rev p)))"

text \<open>
  Lines 583 to 590: the stored path if it exists, else the file of the same name under
  \<^verbatim>\<open>script_dir / "images"\<close>, else nothing (\<^verbatim>\<open>continue\<close>).
\<close>

definition resolve_candidate :: "world \<Rightarrow> string \<Rightarrow> string \<Rightarrow> string option" where
  "resolve_candidate w script_dir pth =
     (if path_exists w pth then Some pth
      else let candidate2 = script_dir @ ''/images/'' @ path_name pth
           in if path_exists w candidate2 then Some candidate2 else None)"

text \<open>Lines 592 to 595: the four thresholds in turn, the first hit returns.\<close>

fun template_loop ::
  "world \<Rightarrow> string \<Rightarrow> image \<Rightarrow> string \<Rightarrow> real list \<Rightarrow> attempt list
     \<Rightarrow> (int \<times> int) option \<times> attempt list" where
  "template_loop w candidate screenshot attr [] tr = (None, tr)"
| "template_loop w candidate screenshot attr (c # cs) tr =
     (case cv2_template_match w candidate screenshot c of
        Some hit \<Rightarrow> (Some (fst hit, fst (snd hit)), tr @ [Template attr c])
      | None \<Rightarrow> template_loop w candidate screenshot attr cs (tr @ [Template attr c]))"

text \<open>Lines 591 to 599: the body of the loop for one attribute whose file was found.\<close>

definition match_region ::
  "world \<Rightarrow> string \<Rightarrow> image \<Rightarrow> string \<Rightarrow> attempt list \<Rightarrow> (int \<times> int) option \<times> attempt list" where
  "match_region w candidate screenshot attr tr =
     (case template_loop w candidate screenshot attr confs tr of
        (Some p, tr') \<Rightarrow> (Some p, tr')
      | (None, tr') \<Rightarrow>
          (case orb_match w candidate screenshot of
             Some hit \<Rightarrow> (Some (fst hit, fst (snd hit)), tr' @ [Feature attr])
           | None \<Rightarrow> (None, tr' @ [Feature attr])))"

text \<open>Lines 600 to 606: the text of the event, when it has one.\<close>

definition ocr_step ::
  "world \<Rightarrow> event \<Rightarrow> image \<Rightarrow> attempt list \<Rightarrow> (int \<times> int) option \<times> attempt list" where
  "ocr_step w ev screenshot tr =
     (let tt = (case event_get ev ''ocr_text'' of None \<Rightarrow> [] | Some t \<Rightarrow> t)
      in if tt \<noteq> []
         then (case ocr_match w tt screenshot of
                 Some hit \<Rightarrow> (Some (fst hit, fst (snd hit)), tr @ [Text])
               | None \<Rightarrow> (None, tr @ [Text]))
         else (None, tr))"

text \<open>Lines 579 to 606: the loop over the image attributes, then the text.\<close>

fun attr_loop ::
  "world \<Rightarrow> event \<Rightarrow> string \<Rightarrow> image \<Rightarrow> string list \<Rightarrow> attempt list
     \<Rightarrow> (int \<times> int) option \<times> attempt list" where
  "attr_loop w ev script_dir screenshot [] tr = ocr_step w ev screenshot tr"
| "attr_loop w ev script_dir screenshot (attr # rest) tr =
     (case event_get ev attr of
        None \<Rightarrow> attr_loop w ev script_dir screenshot rest tr
      | Some pth \<Rightarrow>
          if pth = [] then attr_loop w ev script_dir screenshot rest tr
          else (case resolve_candidate w script_dir pth of
                  None \<Rightarrow> attr_loop w ev script_dir screenshot rest tr
                | Some candidate \<Rightarrow>
                    (case match_region w candidate screenshot attr tr of
                       (Some p, tr') \<Rightarrow> (Some p, tr')
                     | (None, tr') \<Rightarrow> attr_loop w ev script_dir screenshot rest tr')))"

definition try_find_click_target ::
  "world \<Rightarrow> event \<Rightarrow> string \<Rightarrow> (int \<times> int) option \<times> attempt list" where
  "try_find_click_target w ev script_dir =
     (case safe_screenshot w of
        None \<Rightarrow> (None, [])
      | Some screenshot \<Rightarrow> attr_loop w ev script_dir screenshot img_attrs [])"


subsection \<open>The cascade as a schedule of attempts\<close>

text \<open>
  The order of the attempts, written out as a list: what the source's nested loops are
  compared with. An entry is the matcher call and its argument (the resolved file of a
  region, or the text).
\<close>

definition region_candidate :: "world \<Rightarrow> event \<Rightarrow> string \<Rightarrow> string \<Rightarrow> string option" where
  "region_candidate w ev script_dir attr =
     (case event_get ev attr of
        None \<Rightarrow> None
      | Some pth \<Rightarrow> if pth = [] then None else resolve_candidate w script_dir pth)"

definition raster_schedule :: "world \<Rightarrow> event \<Rightarrow> string \<Rightarrow> string \<Rightarrow> (attempt \<times> string) list" where
  "raster_schedule w ev script_dir attr =
     (case region_candidate w ev script_dir attr of
        None \<Rightarrow> []
      | Some candidate \<Rightarrow> map (\<lambda>c. (Template attr c, candidate)) confs)"

definition feature_schedule :: "world \<Rightarrow> event \<Rightarrow> string \<Rightarrow> string \<Rightarrow> (attempt \<times> string) list" where
  "feature_schedule w ev script_dir attr =
     (case region_candidate w ev script_dir attr of
        None \<Rightarrow> []
      | Some candidate \<Rightarrow> [(Feature attr, candidate)])"

definition text_schedule :: "event \<Rightarrow> (attempt \<times> string) list" where
  "text_schedule ev =
     (case event_get ev ''ocr_text'' of
        None \<Rightarrow> []
      | Some t \<Rightarrow> if t = [] then [] else [(Text, t)])"

text \<open>
  The order the code follows: region by region, the four thresholds and then the
  feature matcher on the same region; the text last.
\<close>

definition attempt_schedule :: "world \<Rightarrow> event \<Rightarrow> string \<Rightarrow> (attempt \<times> string) list" where
  "attempt_schedule w ev script_dir =
     concat (map (\<lambda>attr. raster_schedule w ev script_dir attr @ feature_schedule w ev script_dir attr)
               img_attrs)
     @ text_schedule ev"

text \<open>
  The order of the specification's section 4.4, for comparison: raster matching on
  every region, only then feature matching on every region, then the text.
\<close>

definition spec_schedule :: "world \<Rightarrow> event \<Rightarrow> string \<Rightarrow> (attempt \<times> string) list" where
  "spec_schedule w ev script_dir =
     concat (map (raster_schedule w ev script_dir) img_attrs)
     @ concat (map (feature_schedule w ev script_dir) img_attrs)
     @ text_schedule ev"

definition hit_point :: "int \<times> int \<times> real \<Rightarrow> int \<times> int" where
  "hit_point hit = (fst hit, fst (snd hit))"

fun run_attempt :: "world \<Rightarrow> image \<Rightarrow> attempt \<times> string \<Rightarrow> (int \<times> int) option" where
  "run_attempt w screenshot (Template attr c, arg) =
     map_option hit_point (cv2_template_match w arg screenshot c)"
| "run_attempt w screenshot (Feature attr, arg) =
     map_option hit_point (orb_match w arg screenshot)"
| "run_attempt w screenshot (Text, arg) =
     map_option hit_point (ocr_match w arg screenshot)"

text \<open>Run a schedule until the first attempt that succeeds; the log is what was run.\<close>

fun first_success ::
  "world \<Rightarrow> image \<Rightarrow> (attempt \<times> string) list \<Rightarrow> (int \<times> int) option \<times> attempt list" where
  "first_success w screenshot [] = (None, [])"
| "first_success w screenshot (a # rest) =
     (case run_attempt w screenshot a of
        Some p \<Rightarrow> (Some p, [fst a])
      | None \<Rightarrow> (fst (first_success w screenshot rest),
                 fst a # snd (first_success w screenshot rest)))"

definition locate_spec :: "world \<Rightarrow> event \<Rightarrow> string \<Rightarrow> (int \<times> int) option \<times> attempt list" where
  "locate_spec w ev script_dir =
     (case safe_screenshot w of
        None \<Rightarrow> (None, [])
      | Some screenshot \<Rightarrow> first_success w screenshot (spec_schedule w ev script_dir))"

text \<open>The region an attempt works on.\<close>

fun attempt_attr :: "attempt \<Rightarrow> string option" where
  "attempt_attr (Template attr c) = Some attr"
| "attempt_attr (Feature attr) = Some attr"
| "attempt_attr Text = None"

text \<open>The event without one of its regions: the same dictionary with that key at \<^verbatim>\<open>None\<close>.\<close>

definition event_clear :: "string \<Rightarrow> event \<Rightarrow> event" where
  "event_clear k ev =
     (if k = ''img_micro'' then ev\<lparr>img_micro := None\<rparr>
      else if k = ''img_small'' then ev\<lparr>img_small := None\<rparr>
      else if k = ''img_medium'' then ev\<lparr>img_medium := None\<rparr>
      else if k = ''img_large'' then ev\<lparr>img_large := None\<rparr>
      else if k = ''img_context'' then ev\<lparr>img_context := None\<rparr>
      else ev)"

text \<open>The attempts of a schedule that do not work on the region \<open>a\<close>.\<close>

definition other_than :: "string \<Rightarrow> attempt \<times> string \<Rightarrow> bool" where
  "other_than a x = (attempt_attr (fst x) \<noteq> Some a)"

subsection \<open>Action executor\<close>

text \<open>
  The mouse as \<^verbatim>\<open>_intelligent_click\<close> sees it. Each of its \<^verbatim>\<open>try\<close> blocks moves to a
  point, clicks there and sleeps; \<open>plat n p\<close> tells whether the block of attempt number
  \<open>n\<close> (counted from 0), at the point \<open>p\<close>, returns normally. When it does not, the
  block raised an \<^verbatim>\<open>Exception\<close>, which its \<^verbatim>\<open>except\<close> clause catches. The attempt
  number lets a point fail once and succeed later.
\<close>

type_synonym platform = "nat \<Rightarrow> int \<times> int \<Rightarrow> bool"

text \<open>
  A \<^verbatim>\<open>for\<close> loop over points with \<^verbatim>\<open>return True\<close> at the first block that succeeds
  and \<^verbatim>\<open>continue\<close> otherwise. The log holds the points tried so far, so its length is
  the number of the next attempt.
\<close>

fun try_points :: "platform \<Rightarrow> (int \<times> int) list \<Rightarrow> (int \<times> int) list \<Rightarrow> bool \<times> (int \<times> int) list" where
  "try_points plat [] tr = (False, tr)"
| "try_points plat (p # ps) tr =
     (if plat (length tr) p then (True, tr @ [p]) else try_points plat ps (tr @ [p]))"

text \<open>\<^verbatim>\<open>[(dx, dy) for dx in (-8, 0, 8) for dy in (-8, 0, 8)]\<close> (line 629).\<close>

definition steps :: "(int \<times> int) list" where
  "steps = concat (map (\<lambda>dx. map (\<lambda>dy. (dx, dy)) [- 8, 0, 8]) [- 8, 0, 8])"

text \<open>The two inner loops of lines 641 and 642 for one radius.\<close>

definition ring :: "int \<Rightarrow> (int \<times> int) list" where
  "ring r = concat (map (\<lambda>dx. map (\<lambda>dy. (dx, dy)) [- r, 0, r]) [- r, 0, r])"

definition offset_by :: "int \<Rightarrow> int \<Rightarrow> int \<times> int \<Rightarrow> int \<times> int" where
  "offset_by x y d = (x + fst d, y + snd d)"

text \<open>Lines 640 to 650: the loop over the radii.\<close>

fun radius_loop ::
  "platform \<Rightarrow> int \<Rightarrow> int \<Rightarrow> int list \<Rightarrow> (int \<times> int) list \<Rightarrow> bool \<times> (int \<times> int) list" where
  "radius_loop plat x y [] tr = (False, tr)"
| "radius_loop plat x y (r # rs) tr =
     (case try_points plat (map (offset_by x y) (ring r)) tr of
        (True, tr') \<Rightarrow> (True, tr')
      | (False, tr') \<Rightarrow> radius_loop plat x y rs tr')"

text \<open>\<^verbatim>\<open>_intelligent_click(x, y, max_radius)\<close>, with the points it tried.\<close>

definition intelligent_click ::
  "platform \<Rightarrow> int \<Rightarrow> int \<Rightarrow> int \<Rightarrow> bool \<times> (int \<times> int) list" where
  "intelligent_click plat x y max_radius =
     (if plat 0 (x, y) then (True, [(x, y)])
      else case try_points plat (map (offset_by x y) steps) [(x, y)] of
             (True, tr) \<Rightarrow> (True, tr)
           | (False, tr) \<Rightarrow> radius_loop plat x y [12, 18, max_radius] tr)"

text \<open>
  The points of all phases in one list: the exact point, the nine points of the grid of
  step 8, and the nine points of each of the three radii.
\<close>

definition click_schedule :: "int \<Rightarrow> int \<Rightarrow> int \<Rightarrow> (int \<times> int) list" where
  "click_schedule x y max_radius =
     (x, y) # map (offset_by x y) (steps @ ring 12 @ ring 18 @ ring max_radius)"

text \<open>Try the points of a list in turn, from attempt number \<open>n\<close>, until one succeeds.\<close>

fun first_ok :: "platform \<Rightarrow> nat \<Rightarrow> (int \<times> int) list \<Rightarrow> bool \<times> (int \<times> int) list" where
  "first_ok plat n [] = (False, [])"
| "first_ok plat n (p # ps) =
     (if plat n p then (True, [p])
      else (fst (first_ok plat (Suc n) ps), p # snd (first_ok plat (Suc n) ps)))"


subsection \<open>Region extractor\<close>

definition SNIP_MICRO :: "int \<times> int" where
  "SNIP_MICRO = (80, 60)"

definition SNIP_SMALL :: "int \<times> int" where
  "SNIP_SMALL = (160, 120)"

definition SNIP_MEDIUM :: "int \<times> int" where
  "SNIP_MEDIUM = (320, 240)"

definition SNIP_LARGE :: "int \<times> int" where
  "SNIP_LARGE = (480, 360)"

definition SNIP_CONTEXT :: "int \<times> int" where
  "SNIP_CONTEXT = (800, 600)"

text \<open>The dictionary \<^verbatim>\<open>sizes\<close> of line 231, in its insertion order.\<close>

definition sizes :: "(string \<times> int \<times> int) list" where
  "sizes = [(''micro'', SNIP_MICRO), (''small'', SNIP_SMALL), (''medium'', SNIP_MEDIUM),
            (''large'', SNIP_LARGE), (''context'', SNIP_CONTEXT)]"

text \<open>
  What \<^verbatim>\<open>_save_multi_snips\<close> sees of the machine:
  \<^item> \<open>screen_size\<close>: \<^verbatim>\<open>img.size\<close> of \<^verbatim>\<open>_safe_screenshot()\<close>, \<open>None\<close> without a
    screenshot;
  \<^item> \<open>crop_hash\<close>: \<^verbatim>\<open>_img_hash\<close> of the crop of a box, \<open>None\<close> when hashing raises;
  \<^item> \<open>clock_ms\<close>: the digits of \<^verbatim>\<open>int(time.time()*1000)\<close> at the time the named size
    is handled;
  \<^item> \<open>save_ok\<close>: whether \<^verbatim>\<open>crop.save(path)\<close> returns normally.
\<close>

record capture_env =
  screen_size :: "(int \<times> int) option"
  crop_hash :: "int \<times> int \<times> int \<times> int \<Rightarrow> string option"
  clock_ms :: "string \<Rightarrow> string"
  save_ok :: "string \<Rightarrow> bool"

text \<open>Lines 241 to 244: the box \<open>(left, top', right, bottom)\<close> of one size, clipped.\<close>

definition clip_box :: "int \<Rightarrow> int \<Rightarrow> int \<Rightarrow> int \<Rightarrow> int \<times> int \<Rightarrow> int \<times> int \<times> int \<times> int" where
  "clip_box sw sh x y wh =
     (let left = max 0 (x - fst wh div 2);
          top' = max 0 (y - snd wh div 2);
          right = min sw (left + fst wh);
          bottom = min sh (top' + snd wh)
      in (left, top', right, bottom))"

text \<open>Lines 248 and 249: the name of the file of a crop.\<close>

definition snip_path :: "capture_env \<Rightarrow> string \<Rightarrow> string \<Rightarrow> int \<times> int \<times> int \<times> int \<Rightarrow> string" where
  "snip_path env outdir name box =
     (let ih = (if truthy (crop_hash env box) then the (crop_hash env box)
                else ''nohash_'' @ clock_ms env name)
      in outdir @ ''/images/'' @ name @ ''_'' @ ih @ ''.png'')"

text \<open>
  The loop of lines 240 to 255. The state is the two dictionaries that the function
  returns (insertion-ordered, as association lists) and the files written so far, each
  with the box of the crop it holds.
\<close>

type_synonym snips =
  "(string \<times> string) list \<times> (string \<times> int \<times> int) list \<times> (string \<times> int \<times> int \<times> int \<times> int) list"

fun snips_loop ::
  "capture_env \<Rightarrow> string \<Rightarrow> int \<Rightarrow> int \<Rightarrow> int \<Rightarrow> int \<Rightarrow> (string \<times> int \<times> int) list \<Rightarrow> snips \<Rightarrow> snips" where
  "snips_loop env outdir sw sh x y [] acc = acc"
| "snips_loop env outdir sw sh x y ((name, wh) # rest) (results, origins, saved) =
     (case clip_box sw sh x y wh of
        (left, top', right, bottom) \<Rightarrow>
          if right \<le> left \<or> bottom \<le> top'
          then snips_loop env outdir sw sh x y rest (results, origins, saved)
          else let path = snip_path env outdir name (left, top', right, bottom)
               in if save_ok env path
                  then snips_loop env outdir sw sh x y rest
                         (AList.update (''img_'' @ name) path results,
                          AList.update (''img_'' @ name) (left, top') origins,
                          saved @ [(path, (left, top', right, bottom))])
                  else snips_loop env outdir sw sh x y rest (results, origins, saved))"

definition save_multi_snips :: "capture_env \<Rightarrow> string \<Rightarrow> int \<Rightarrow> int \<Rightarrow> snips" where
  "save_multi_snips env outdir x y =
     (case screen_size env of
        None \<Rightarrow> ([], [], [])
      | Some (sw, sh) \<Rightarrow> snips_loop env outdir sw sh x y sizes ([], [], []))"

text \<open>Whether a size ends up in the result: its clipped box is not empty and the file was saved.\<close>

definition kept :: "capture_env \<Rightarrow> string \<Rightarrow> int \<Rightarrow> int \<Rightarrow> int \<Rightarrow> int \<Rightarrow> string \<times> int \<times> int \<Rightarrow> bool" where
  "kept env outdir sw sh x y s =
     (case clip_box sw sh x y (snd s) of
        (left, top', right, bottom) \<Rightarrow>
          left < right \<and> top' < bottom
          \<and> save_ok env (snip_path env outdir (fst s) (left, top', right, bottom)))"


text \<open>The entries that a kept size adds to the two dictionaries and to the files.\<close>

definition result_of ::
  "capture_env \<Rightarrow> string \<Rightarrow> int \<Rightarrow> int \<Rightarrow> int \<Rightarrow> int \<Rightarrow> string \<times> int \<times> int \<Rightarrow> string \<times> string" where
  "result_of env outdir sw sh x y s =
     (''img_'' @ fst s, snip_path env outdir (fst s) (clip_box sw sh x y (snd s)))"

definition origin_of :: "int \<Rightarrow> int \<Rightarrow> int \<Rightarrow> int \<Rightarrow> string \<times> int \<times> int \<Rightarrow> string \<times> int \<times> int" where
  "origin_of sw sh x y s =
     (''img_'' @ fst s,
      (fst (clip_box sw sh x y (snd s)), fst (snd (clip_box sw sh x y (snd s)))))"

definition saved_of ::
  "capture_env \<Rightarrow> string \<Rightarrow> int \<Rightarrow> int \<Rightarrow> int \<Rightarrow> int \<Rightarrow> string \<times> int \<times> int
     \<Rightarrow> string \<times> int \<times> int \<times> int \<times> int" where
  "saved_of env outdir sw sh x y s =
     (snip_path env outdir (fst s) (clip_box sw sh x y (snd s)), clip_box sw sh x y (snd s))"


subsection \<open>Replay loop\<close>

text \<open>
  The abort flag is set by a listener thread at a time of its own choosing; the loop
  of \<^verbatim>\<open>replay_script\<close> reads it in one place, the head of each iteration. The model
  names the two moments of iteration \<open>i\<close> at which the value of the flag matters: at the
  head of the loop, where the code reads it, and after the pacing sleep, when the
  action of the event is performed.
\<close>

datatype iter_point = Loop_head | After_wait

text \<open>
  What the loop sees of the machine while it handles event number \<open>i\<close>:
  \<^item> \<open>abort_is_set i pt\<close>: \<^verbatim>\<open>abort_event.is_set()\<close> at that moment of iteration \<open>i\<close>;
  \<^item> \<open>world_at i\<close>: the screen and the matchers when the target is looked for;
  \<^item> \<open>mouse_at i\<close>: the mouse for \<^verbatim>\<open>_intelligent_click\<close>;
  \<^item> \<open>scroll_ok i p\<close>: whether \<^verbatim>\<open>_perform_scroll_at\<close> at \<open>p\<close> returns normally;
  \<^item> \<open>key_ok i\<close>: the result of \<^verbatim>\<open>_replay_key_event\<close>, true unless the key call
    raises.
\<close>

record replay_env =
  abort_is_set :: "nat \<Rightarrow> iter_point \<Rightarrow> bool"
  world_at :: "nat \<Rightarrow> world"
  mouse_at :: "nat \<Rightarrow> platform"
  scroll_ok :: "nat \<Rightarrow> int \<times> int \<Rightarrow> bool"
  key_ok :: "nat \<Rightarrow> bool"

definition SCROLL_MULTIPLIER :: int where
  "SCROLL_MULTIPLIER = 120"

text \<open>
  An action handed to the platform: which event it belongs to, what was done, and
  whether the abort flag was set at that moment.
\<close>

datatype action = Key_event | Scroll "int \<times> int" int | Click "(int \<times> int) list"

record replay_state =
  success :: nat
  fail :: nat
  last_ts :: real
  slept :: real
  performed :: "(nat \<times> action \<times> bool) list"

text \<open>
  Lines 768 to 773 and 779 to 783: the matched target, else the recorded point
  translated into the current window.
\<close>

definition resolve_target ::
  "replay_env \<Rightarrow> string \<Rightarrow> int \<times> int \<times> int \<times> int \<Rightarrow> int \<times> int \<times> int \<times> int \<Rightarrow> nat \<Rightarrow> event
     \<Rightarrow> py_error + int \<times> int" where
  "resolve_target env script_dir rec_win win_rect i ev =
     (case fst (try_find_click_target (world_at env i) ev script_dir) of
        None \<Rightarrow> translate_coord (ev_x ev, ev_y ev) rec_win win_rect
      | Some target \<Rightarrow> Inr target)"

text \<open>
  Lines 753 to 797, the \<^verbatim>\<open>try\<close> block of one iteration with its \<^verbatim>\<open>except\<close> clause:
  an exception inside the block counts one failure.
\<close>

definition replay_event ::
  "replay_env \<Rightarrow> string \<Rightarrow> int \<times> int \<times> int \<times> int \<Rightarrow> int \<times> int \<times> int \<times> int \<Rightarrow> nat \<Rightarrow> event
     \<Rightarrow> replay_state \<Rightarrow> replay_state" where
  "replay_event env script_dir rec_win win_rect i ev st0 =
     (let t = timestamp ev;
          wait = max 0 (t - last_ts st0);
          st = st0\<lparr>last_ts := t, slept := slept st0 + wait\<rparr>;
          flag = abort_is_set env i After_wait;
          etype = action_type ev
      in if etype = ''key_press'' \<or> etype = ''key_release''
         then (if key_ok env i
               then st\<lparr>success := success st + 1, performed := performed st @ [(i, Key_event, flag)]\<rparr>
               else st\<lparr>fail := fail st + 1, performed := performed st @ [(i, Key_event, flag)]\<rparr>)
         else if etype = ''mouse_scroll''
         then (case resolve_target env script_dir rec_win win_rect i ev of
                 Inl e \<Rightarrow> st\<lparr>fail := fail st + 1\<rparr>
               | Inr p \<Rightarrow>
                   if scroll_ok env i p
                   then st\<lparr>success := success st + 1,
                           performed := performed st @ [(i, Scroll p (data_dy ev * SCROLL_MULTIPLIER), flag)]\<rparr>
                   else st\<lparr>fail := fail st + 1,
                           performed := performed st @ [(i, Scroll p (data_dy ev * SCROLL_MULTIPLIER), flag)]\<rparr>)
         else if etype = ''mouse_click''
         then (case resolve_target env script_dir rec_win win_rect i ev of
                 Inl e \<Rightarrow> st\<lparr>fail := fail st + 1\<rparr>
               | Inr p \<Rightarrow>
                   (case intelligent_click (mouse_at env i) (fst p) (snd p) 24 of
                      (ok, tried) \<Rightarrow>
                        if ok
                        then st\<lparr>success := success st + 1,
                                performed := performed st @ [(i, Click tried, flag)]\<rparr>
                        else st\<lparr>fail := fail st + 1,
                                performed := performed st @ [(i, Click tried, flag)]\<rparr>))
         else st)"

text \<open>Lines 749 to 797: the loop, which leaves at the first iteration that finds the flag set.\<close>

fun replay_loop ::
  "replay_env \<Rightarrow> string \<Rightarrow> int \<times> int \<times> int \<times> int \<Rightarrow> int \<times> int \<times> int \<times> int \<Rightarrow> nat \<Rightarrow> event list
     \<Rightarrow> replay_state \<Rightarrow> replay_state" where
  "replay_loop env script_dir rec_win win_rect i [] st = st"
| "replay_loop env script_dir rec_win win_rect i (ev # evs) st =
     (if abort_is_set env i Loop_head then st
      else replay_loop env script_dir rec_win win_rect (Suc i) evs
             (replay_event env script_dir rec_win win_rect i ev st))"

text \<open>
  Lines 736 to 799: the counters start at zero; the state at the end is what is reported.
  \<^verbatim>\<open>replay_script\<close> calls the loop with \<open>win_rect\<close> the bounds of the Simulator window
  (or \<open>(50, 50, 420, 860)\<close>) and with \<open>rec_win\<close> the whole screen, \<open>full_screen\<close> of
  \<^verbatim>\<open>pyautogui.size()\<close> (lines 743 and 744), in every case: the comments of lines 738 to
  742 speak of a recorded window rect and of the first event's image origin, but neither
  the recording's \<^verbatim>\<open>meta\<close> nor \<^verbatim>\<open>img_origins\<close> is read.
\<close>

definition full_screen :: "int \<times> int \<Rightarrow> int \<times> int \<times> int \<times> int" where
  "full_screen wh = (0, 0, fst wh, snd wh)"

definition replay_events ::
  "replay_env \<Rightarrow> string \<Rightarrow> int \<times> int \<times> int \<times> int \<Rightarrow> int \<times> int \<times> int \<times> int \<Rightarrow> event list
     \<Rightarrow> replay_state" where
  "replay_events env script_dir rec_win win_rect events =
     replay_loop env script_dir rec_win win_rect 0 events
       \<lparr>success = 0, fail = 0, last_ts = 0, slept = 0, performed = []\<rparr>"

text \<open>The events that one of the counters counts: keys, scrolls and clicks.\<close>

definition counted :: "event \<Rightarrow> bool" where
  "counted ev =
     (action_type ev = ''key_press'' \<or> action_type ev = ''key_release''
      \<or> action_type ev = ''mouse_scroll'' \<or> action_type ev = ''mouse_click'')"


subsection \<open>Example inputs\<close>

definition ex_shot :: image where
  "ex_shot = \<lparr>img_width = 1000, img_height = 800, img_data = 0\<rparr>"

definition ex_small :: image where
  "ex_small = \<lparr>img_width = 10, img_height = 10, img_data = 1\<rparr>"

definition ex_medium :: image where
  "ex_medium = \<lparr>img_width = 20, img_height = 20, img_data = 2\<rparr>"

text \<open>
  A click with two stored regions. On the screen of \<open>ex_world\<close> the small region
  correlates badly (peak 0.1) but its key points are found around (7, 7); the medium
  region correlates well (peak 0.9 at (90, 90)).
\<close>

definition ex_event :: event where
  "ex_event =
     \<lparr>timestamp = 0, action_type = ''mouse_click'', ev_x = 100, ev_y = 100,
      data_key = [], data_dy = 0,
      img_micro = None, img_small = Some ''small.png'', img_medium = Some ''medium.png'',
      img_large = None, img_context = None, ocr_text = None\<rparr>"

definition ex_world :: world where
  "ex_world =
     \<lparr>cv2_available = True, ocr_available = False, safe_screenshot = Some ex_shot,
      path_exists = (\<lambda>p. True),
      imread = (\<lambda>p. if p = ''small.png'' then Some ex_small
                     else if p = ''medium.png'' then Some ex_medium else None),
      match_template = (\<lambda>s t. if img_data t = 1 then Some (1 / 10, 0, 0) else Some (9 / 10, 90, 90)),
      image_open = (\<lambda>p. if p = ''small.png'' then Some ex_small
                         else if p = ''medium.png'' then Some ex_medium else None),
      orb_locate = (\<lambda>t s. if img_data t = 1 then Some (7, 7, 1) else None),
      image_to_data = (\<lambda>s. None)\<rparr>"

text \<open>The same machine after the file of the small region was deleted.\<close>

definition ex_world_missing :: world where
  "ex_world_missing = ex_world\<lparr>path_exists := (\<lambda>p. p = ''medium.png'')\<rparr>"


text \<open>A screen of 1000 by 800 pixels on which every crop can be hashed and saved.\<close>

definition ex_capture :: capture_env where
  "ex_capture =
     \<lparr>screen_size = Some (1000, 800), crop_hash = (\<lambda>b. Some ''0123456789abcdef''),
      clock_ms = (\<lambda>n. ''0''), save_ok = (\<lambda>p. True)\<rparr>"


text \<open>
  A replay of key events during which the abort flag is set while the loop sleeps
  before the first event, and stays set.
\<close>

definition ex_key :: event where
  "ex_key =
     \<lparr>timestamp = 2, action_type = ''key_press'', ev_x = 0, ev_y = 0,
      data_key = ''a'', data_dy = 0,
      img_micro = None, img_small = None, img_medium = None,
      img_large = None, img_context = None, ocr_text = None\<rparr>"

definition ex_replay_env :: replay_env where
  "ex_replay_env =
     \<lparr>abort_is_set = (\<lambda>i pt. \<not> (i = 0 \<and> pt = Loop_head)),
      world_at = (\<lambda>i. ex_world), mouse_at = (\<lambda>i n p. True),
      scroll_ok = (\<lambda>i p. True), key_ok = (\<lambda>i. True)\<rparr>"


section \<open>Properties\<close>

subsection \<open>Helper facts\<close>

declare translate_coord.simps [simp del]

lemma round_half_even_of_int: "round_half_even (real_of_int n) = n"
  by (simp add: round_half_even_def)

lemma round_half_even_range:
  "real_of_int (round_half_even v) \<le> v + 1 / 2 \<and> v - 1 / 2 \<le> real_of_int (round_half_even v)"
  unfolding round_half_even_def Let_def by (auto; linarith)

lemma round_half_even_bound:
  assumes "\<bar>v\<bar> \<le> real_of_int N"
  shows "\<bar>round_half_even v\<bar> \<le> N"
proof -
  from round_half_even_range [of v] assms
  have "real_of_int (round_half_even v) < real_of_int (N + 1)"
    and "real_of_int (- N - 1) < real_of_int (round_half_even v)"
    by (auto simp: abs_le_iff)
  then have "round_half_even v < N + 1" and "- N - 1 < round_half_even v"
    by (simp_all only: of_int_less_iff)
  then show ?thesis by simp
qed

lemma two_powi_nonneg: "0 \<le> k \<Longrightarrow> (2::real) powi k = 2 ^ nat k"
  by (simp add: power_int_def)

lemma two_powi_neg: "0 \<le> k \<Longrightarrow> (2::real) powi (- k) = 1 / 2 ^ nat k"
  by (simp add: power_int_minus_divide two_powi_nonneg)

lemma float_exponent_bounds:
  assumes "x \<noteq> 0"
  shows "2 powi float_exponent x \<le> \<bar>x\<bar> \<and> \<bar>x\<bar> < 2 powi (float_exponent x + 1)"
proof (cases "1 \<le> \<bar>x\<bar>")
  case True
  define n where "n = \<lfloor>\<bar>x\<bar>\<rfloor>"
  have n: "0 < n" using True by (simp add: n_def)
  have e: "float_exponent x = bitlen n - 1"
    using True by (simp add: float_exponent_def n_def)
  from bitlen_bounds [OF n] have lo: "2 ^ nat (bitlen n - 1) \<le> n" and hi: "n < 2 ^ nat (bitlen n)"
    by simp_all
  have b1: "1 \<le> bitlen n"
    using n bitlen_eq_zero_iff [of n] bitlen_nonneg [of n] by linarith
  have "real_of_int (2 ^ nat (bitlen n - 1)) \<le> real_of_int n"
    using lo by (simp only: of_int_le_iff)
  also have "real_of_int n \<le> \<bar>x\<bar>"
    by (simp add: n_def)
  finally have L: "2 powi (bitlen n - 1) \<le> \<bar>x\<bar>"
    using b1 by (simp add: power_int_def)
  have "n + 1 \<le> 2 ^ nat (bitlen n)" using hi by simp
  then have "real_of_int (n + 1) \<le> real_of_int (2 ^ nat (bitlen n))"
    by (simp only: of_int_le_iff)
  moreover have "\<bar>x\<bar> < real_of_int (n + 1)"
    unfolding n_def by linarith
  ultimately have U: "\<bar>x\<bar> < 2 powi (bitlen n)"
    using b1 by (simp add: power_int_def)
  from L U show ?thesis by (simp add: e)
next
  case False
  then have a: "0 < \<bar>x\<bar>" "\<bar>x\<bar> < 1" using assms by simp_all
  define y where "y = 1 / \<bar>x\<bar>"
  have y: "1 < y" using a by (simp add: y_def)
  define c where "c = \<lceil>y\<rceil>"
  have c: "0 < c - 1" using y unfolding c_def by linarith
  have cy: "y \<le> real_of_int c" "real_of_int (c - 1) < y"
    unfolding c_def by linarith+
  define b where "b = bitlen (c - 1)"
  have e: "float_exponent x = - b"
    using False by (simp add: float_exponent_def b_def c_def y_def)
  from bitlen_bounds [OF c] have lo: "2 ^ nat (b - 1) \<le> c - 1" and hi: "c - 1 < 2 ^ nat b"
    by (simp_all add: b_def)
  have b1: "1 \<le> b"
    using c bitlen_eq_zero_iff [of "c - 1"] bitlen_nonneg [of "c - 1"] unfolding b_def by linarith
  have "c \<le> 2 ^ nat b" using hi by simp
  then have "real_of_int c \<le> real_of_int (2 ^ nat b)" by (simp only: of_int_le_iff)
  also have "real_of_int (2 ^ nat b) = 2 ^ nat b" by simp
  finally have "real_of_int c \<le> 2 ^ nat b" .
  with cy(1) have yb: "y \<le> 2 ^ nat b" by (rule order_trans)
  have "real_of_int (2 ^ nat (b - 1)) \<le> real_of_int (c - 1)"
    using lo by (simp only: of_int_le_iff)
  moreover have "real_of_int (2 ^ nat (b - 1)) = 2 ^ nat (b - 1)" by simp
  ultimately have "(2::real) ^ nat (b - 1) \<le> real_of_int (c - 1)" by (simp only:)
  then have yl: "2 ^ nat (b - 1) < y" using cy(2) by (rule le_less_trans)
  have x: "\<bar>x\<bar> = 1 / y" using a by (simp add: y_def)
  have L: "2 powi (- b) \<le> \<bar>x\<bar>"
  proof -
    have "1 / 2 ^ nat b \<le> 1 / y"
      using yb y by (intro divide_left_mono) simp_all
    then show ?thesis
      using b1 by (simp add: x two_powi_neg)
  qed
  have U: "\<bar>x\<bar> < 2 powi (- b + 1)"
  proof -
    have "1 / y < 1 / 2 ^ nat (b - 1)"
      using yl y by (intro divide_strict_left_mono) simp_all
    moreover have "(2::real) powi (- b + 1) = 1 / 2 ^ nat (b - 1)"
      using b1 two_powi_neg [of "b - 1"] by simp
    ultimately show ?thesis by (simp add: x)
  qed
  from L U show ?thesis by (simp add: e)
qed

lemma below_limit: "k \<le> 1023 \<Longrightarrow> \<bar>y\<bar> \<le> 2 ^ k \<Longrightarrow> \<bar>y\<bar> < DBL_LIMIT"
proof -
  assume k: "k \<le> 1023" and y: "\<bar>y\<bar> \<le> 2 ^ k"
  have "(2::real) ^ k < 2 ^ 1024"
    using k by (intro power_strict_increasing) simp_all
  with y show ?thesis by (simp add: DBL_LIMIT_def)
qed

lemma float_exponent_zero: "float_exponent 0 = 0"
  by (simp add: float_exponent_def bitlen_eq_zero_iff)

lemma float_exponent_le:
  assumes "\<bar>x\<bar> \<le> 2 ^ k"
  shows "float_exponent x \<le> int k"
proof (cases "x = 0")
  case True
  then show ?thesis by (simp add: float_exponent_zero)
next
  case False
  from float_exponent_bounds [OF False] assms
  have "(2::real) powi float_exponent x \<le> 2 powi int k"
    by simp
  then show ?thesis
    by (rule power_int_le_imp_le_exp [rotated]) simp_all
qed

lemma to_double_bound:
  assumes "\<bar>x\<bar> \<le> 2 ^ k" and "k \<le> 1023"
  shows "\<exists>y. to_double x = Fin y \<and> \<bar>y\<bar> \<le> 2 ^ k"
proof -
  define E where "E = max (float_exponent x) (- 1022)"
  define q :: real where "q = 2 powi (E - 52)"
  define m where "m = round_half_even (x / q)"
  define N :: int where "N = 2 ^ nat (int k - E + 52)"
  have q: "0 < q" by (simp add: q_def)
  have E: "E \<le> int k"
    using float_exponent_le [OF assms(1)] by (simp add: E_def)
  have "real_of_int N = 2 powi (int k - E + 52)"
    using E by (simp add: N_def two_powi_nonneg)
  then have Nq: "real_of_int N * q = 2 ^ k"
    by (simp add: q_def flip: power_int_add)
  have "\<bar>x / q\<bar> = \<bar>x\<bar> / q" using q by simp
  also have "\<dots> \<le> 2 ^ k / q"
    using assms(1) q by (simp add: divide_right_mono)
  also have "\<dots> = real_of_int N"
    using Nq q by (simp add: field_simps)
  finally have "\<bar>m\<bar> \<le> N"
    unfolding m_def by (rule round_half_even_bound)
  then have "real_of_int \<bar>m\<bar> \<le> real_of_int N"
    by (simp only: of_int_le_iff)
  then have "real_of_int \<bar>m\<bar> * q \<le> real_of_int N * q"
    using q by (simp only: mult_le_cancel_right_pos)
  then have y: "\<bar>real_of_int m * q\<bar> \<le> 2 ^ k"
    using q Nq by (simp add: abs_mult)
  from below_limit [OF assms(2) y]
  have "to_double x = Fin (real_of_int m * q)"
    unfolding to_double_def Let_def m_def q_def E_def by (simp add: abs_less_iff)
  with y show ?thesis by blast
qed

lemma to_double_zero: "to_double 0 = Fin 0"
  by (simp add: to_double_def round_half_even_def DBL_LIMIT_def)

lemma to_double_int:
  assumes "\<bar>n\<bar> \<le> 2 ^ 53"
  shows "to_double (real_of_int n) = Fin (real_of_int n)"
proof (cases "n = 0")
  case True
  then show ?thesis by (simp add: to_double_zero)
next
  case False
  define x where "x = real_of_int n"
  define e where "e = float_exponent x"
  define q :: real where "q = 2 powi (max e (- 1022) - 52)"
  have x0: "x \<noteq> 0" using False by (simp add: x_def)
  have ax: "\<bar>x\<bar> \<le> 2 ^ 53"
  proof -
    have "real_of_int \<bar>n\<bar> \<le> real_of_int (2 ^ 53)"
      using assms by (simp only: of_int_le_iff)
    then show ?thesis by (simp add: x_def)
  qed
  have x1: "1 \<le> \<bar>x\<bar>"
  proof -
    have "1 \<le> \<bar>n\<bar>" using False by simp
    then have "real_of_int 1 \<le> real_of_int \<bar>n\<bar>" by (simp only: of_int_le_iff)
    then show ?thesis by (simp add: x_def)
  qed
  from float_exponent_bounds [OF x0]
  have lo: "2 powi e \<le> \<bar>x\<bar>" and hi: "\<bar>x\<bar> < 2 powi (e + 1)"
    by (simp_all add: e_def)
  have e53: "e \<le> 53"
    using float_exponent_le [OF ax] by (simp add: e_def)
  have e0: "0 \<le> e"
  proof (rule ccontr)
    assume "\<not> 0 \<le> e"
    then have "e + 1 \<le> 0" by simp
    then have "(2::real) powi (e + 1) \<le> 2 powi 0"
      by (intro power_int_increasing) simp_all
    with hi x1 show False by simp
  qed
  have q: "0 < q" by (simp add: q_def)
  have "\<exists>j. x / q = real_of_int j"
  proof (cases "e \<le> 52")
    case True
    then have "q = 1 / 2 ^ nat (52 - e)"
      using e0 two_powi_neg [of "52 - e"] by (simp add: q_def max_def)
    then have "x / q = real_of_int (n * 2 ^ nat (52 - e))"
      by (simp add: x_def)
    then show ?thesis ..
  next
    case False
    with e53 have e: "e = 53" by simp
    from lo e have "2 ^ 53 \<le> \<bar>x\<bar>" by simp
    with ax have "\<bar>x\<bar> = 2 ^ 53" by simp
    then have "x = 2 ^ 53 \<or> x = - (2 ^ 53)" by (simp add: abs_if split: if_splits)
    moreover have "q = 2" using e by (simp add: q_def)
    ultimately have "x / q = real_of_int (2 ^ 52) \<or> x / q = real_of_int (- (2 ^ 52))"
      by auto
    then show ?thesis by blast
  qed
  then obtain j where j: "x / q = real_of_int j" ..
  then have "real_of_int (round_half_even (x / q)) * q = x"
    using q by (simp add: round_half_even_of_int field_simps)
  moreover have "\<bar>x\<bar> < DBL_LIMIT"
    using ax by (intro below_limit [of 53]) simp_all
  ultimately have "to_double x = Fin x"
    unfolding to_double_def Let_def q_def e_def by (simp add: abs_less_iff)
  then show ?thesis by (simp add: x_def)
qed

lemma py_float_exact: "\<bar>n\<bar> \<le> 2 ^ 53 \<Longrightarrow> py_float n = Inr (real_of_int n)"
  by (simp add: py_float_def to_double_int)

lemma py_float_bound:
  assumes "\<bar>n\<bar> \<le> 2 ^ k" and "k \<le> 1023"
  shows "\<exists>v. py_float n = Inr v \<and> \<bar>v\<bar> \<le> 2 ^ k"
proof -
  have "real_of_int \<bar>n\<bar> \<le> real_of_int (2 ^ k)"
    using assms(1) by (simp only: of_int_le_iff)
  then have "\<bar>real_of_int n\<bar> \<le> 2 ^ k" by simp
  from to_double_bound [OF this assms(2)] show ?thesis
    by (auto simp: py_float_def)
qed

lemma py_truediv_one: "py_truediv a 1 = py_float a"
  by (simp add: py_truediv_def py_float_def)

lemma py_truediv_self: "b \<noteq> 0 \<Longrightarrow> py_truediv b b = Inr 1"
  using to_double_int [of 1] by (simp add: py_truediv_def)

lemma py_truediv_bound:
  assumes "b \<noteq> 0" and "\<bar>a\<bar> \<le> 2 ^ k" and "k \<le> 1023"
  shows "\<exists>v. py_truediv a b = Inr v \<and> \<bar>v\<bar> \<le> 2 ^ k"
proof -
  have b: "1 \<le> \<bar>real_of_int b\<bar>"
  proof -
    have "1 \<le> \<bar>b\<bar>" using assms(1) by simp
    then have "real_of_int 1 \<le> real_of_int \<bar>b\<bar>" by (simp only: of_int_le_iff)
    then show ?thesis by simp
  qed
  have "real_of_int \<bar>a\<bar> \<le> real_of_int (2 ^ k)"
    using assms(2) by (simp only: of_int_le_iff)
  then have a: "\<bar>real_of_int a\<bar> \<le> 2 ^ k" by simp
  have "\<bar>real_of_int a / real_of_int b\<bar> = \<bar>real_of_int a\<bar> / \<bar>real_of_int b\<bar>"
    by simp
  also have "\<dots> \<le> \<bar>real_of_int a\<bar> / 1"
    using b by (intro divide_left_mono) simp_all
  finally have "\<bar>real_of_int a / real_of_int b\<bar> \<le> 2 ^ k"
    using a by simp
  from to_double_bound [OF this assms(3)] show ?thesis
    using assms(1) by (auto simp: py_truediv_def)
qed

lemma float_mul_bound:
  assumes "\<bar>a\<bar> \<le> 2 ^ i" and "\<bar>b\<bar> \<le> 2 ^ j" and "i + j \<le> 1023"
  shows "\<exists>p. float_mul a b = Fin p \<and> \<bar>p\<bar> \<le> 2 ^ (i + j)"
proof -
  have "\<bar>a * b\<bar> = \<bar>a\<bar> * \<bar>b\<bar>" by (simp add: abs_mult)
  also have "\<dots> \<le> 2 ^ i * 2 ^ j"
    using assms(1,2) by (intro mult_mono) simp_all
  finally have "\<bar>a * b\<bar> \<le> 2 ^ (i + j)" by (simp add: power_add)
  from to_double_bound [OF this assms(3)] show ?thesis
    by (simp add: float_mul_def)
qed

lemma float_add_bound:
  assumes "\<bar>a\<bar> \<le> 2 ^ i" and "\<bar>b\<bar> \<le> 2 ^ i" and "Suc i \<le> 1023"
  shows "\<exists>p. float_add a (Fin b) = Fin p \<and> \<bar>p\<bar> \<le> 2 ^ Suc i"
proof -
  have "\<bar>a + b\<bar> \<le> \<bar>a\<bar> + \<bar>b\<bar>" by simp
  also have "\<dots> \<le> 2 ^ i + 2 ^ i" using assms(1,2) by simp
  finally have "\<bar>a + b\<bar> \<le> 2 ^ Suc i" by simp
  from to_double_bound [OF this assms(3)] show ?thesis
    by simp
qed

lemma scale_bound:
  assumes "\<bar>c\<bar> \<le> 2 ^ k" and "k \<le> 1023"
  shows "\<exists>s. scale c r = Inr s \<and> \<bar>s\<bar> \<le> 2 ^ k"
  unfolding scale_def by (rule py_truediv_bound [OF _ assms]) simp

lemma scaled_coord_total:
  assumes "\<bar>c\<bar> \<le> 2 ^ k" and "\<bar>local\<bar> \<le> 2 ^ Suc k" and "\<bar>s\<bar> \<le> 2 ^ k" and "k \<le> 510"
  shows "\<exists>n. scaled_coord c local s = Inr n"
proof -
  from py_float_bound [OF assms(2)] assms(4)
  obtain lf where lf: "py_float local = Inr lf" "\<bar>lf\<bar> \<le> 2 ^ Suc k"
    by auto
  from py_float_bound [OF assms(1)] assms(4)
  obtain cf where cf: "py_float c = Inr cf" "\<bar>cf\<bar> \<le> 2 ^ k"
    by auto
  from float_mul_bound [OF lf(2) assms(3)] assms(4)
  obtain p where p: "float_mul lf s = Fin p" "\<bar>p\<bar> \<le> 2 ^ (Suc k + k)"
    by auto
  have "(2::real) ^ k \<le> 2 ^ (Suc k + k)"
    by (intro power_increasing) simp_all
  with cf(2) have cf': "\<bar>cf\<bar> \<le> 2 ^ (Suc k + k)" by simp
  from float_add_bound [OF cf' p(2)] assms(4)
  obtain t where "float_add cf (Fin p) = Fin t"
    by auto
  with lf(1) cf(1) p(1) show ?thesis
    by (simp add: scaled_coord_def)
qed

lemma scaled_coord_exact:
  assumes "\<bar>local\<bar> \<le> 2 ^ 53" and "\<bar>c\<bar> \<le> 2 ^ 53" and "\<bar>local * f\<bar> \<le> 2 ^ 53"
    and "\<bar>c + local * f\<bar> \<le> 2 ^ 53"
  shows "scaled_coord c local (real_of_int f) = Inr (c + local * f)"
proof -
  have m: "float_mul (real_of_int local) (real_of_int f) =
      Fin (real_of_int local * real_of_int f)"
    using to_double_int [OF assms(3)] by (simp add: float_mul_def)
  have a: "to_double (real_of_int c + real_of_int local * real_of_int f) =
      Fin (real_of_int c + real_of_int local * real_of_int f)"
    using to_double_int [OF assms(4)] by simp
  have r: "round_half_even (real_of_int c + real_of_int local * real_of_int f) = c + local * f"
    using round_half_even_of_int [of "c + local * f"] by simp
  show ?thesis
    by (simp add: scaled_coord_def py_float_exact [OF assms(1)] py_float_exact [OF assms(2)] m a r)
qed

lemma py_float_error: "py_float n = Inl e \<Longrightarrow> e = OverflowError"
  by (auto simp: py_float_def split: double.splits)

lemma py_round_error: "py_round d = Inl e \<Longrightarrow> e = OverflowError"
  by (cases d) auto

lemma scale_error: "scale c r = Inl e \<Longrightarrow> e = OverflowError"
  by (auto simp: scale_def py_truediv_def max_def split: double.splits if_splits)

lemma scaled_coord_error: "scaled_coord c local s = Inl e \<Longrightarrow> e = OverflowError"
  by (auto simp: scaled_coord_def split: sum.splits dest: py_float_error py_round_error)

lemma translate_coord_error:
  assumes "translate_coord (rx, ry) (r_x, r_y, r_w, r_h) (c_x, c_y, c_w, c_h) = Inl e"
  shows "e = OverflowError"
proof -
  from assms consider "scale c_w r_w = Inl e" | "scale c_h r_h = Inl e"
    | sx where "scaled_coord c_x (rx - r_x) sx = Inl e"
    | sy where "scaled_coord c_y (ry - r_y) sy = Inl e"
    by (simp add: translate_coord.simps Let_def split: sum.splits)
  then show ?thesis
    by cases (simp_all add: scale_error scaled_coord_error)
qed

lemma scale_clamped: "r \<le> 1 \<Longrightarrow> scale c r = py_float c"
  by (simp add: scale_def max_def py_truediv_one)

lemma scale_same: "1 \<le> r \<Longrightarrow> scale r r = Inr 1"
  by (simp add: scale_def max_def py_truediv_self)

lemma float_exponent_eq:
  assumes "2 powi e \<le> \<bar>x\<bar>" and "\<bar>x\<bar> < 2 powi (e + 1)"
  shows "float_exponent x = e"
proof -
  have "0 < (2::real) powi e" by simp
  then have "0 < \<bar>x\<bar>" using assms(1) by (rule less_le_trans)
  then have "x \<noteq> 0" by simp
  from float_exponent_bounds [OF this]
  have lo: "2 powi float_exponent x \<le> \<bar>x\<bar>" and hi: "\<bar>x\<bar> < 2 powi (float_exponent x + 1)"
    by simp_all
  have "\<not> e + 1 \<le> float_exponent x"
  proof
    assume "e + 1 \<le> float_exponent x"
    then have "(2::real) powi (e + 1) \<le> 2 powi float_exponent x"
      by (intro power_int_increasing) simp_all
    with lo assms(2) show False by simp
  qed
  moreover have "\<not> float_exponent x + 1 \<le> e"
  proof
    assume "float_exponent x + 1 \<le> e"
    then have "(2::real) powi (float_exponent x + 1) \<le> 2 powi e"
      by (intro power_int_increasing) simp_all
    with hi assms(1) show False by simp
  qed
  ultimately show ?thesis by simp
qed

lemma to_double_eval:
  assumes "2 powi e \<le> \<bar>x\<bar>" and "\<bar>x\<bar> < 2 powi (e + 1)" and "- 1022 \<le> e" and "e \<le> 1022"
  shows "to_double x =
    Fin (real_of_int (round_half_even (x / 2 powi (e - 52))) * 2 powi (e - 52))"
proof -
  have e: "float_exponent x = e"
    using assms(1,2) by (rule float_exponent_eq)
  have "(2::real) powi (e + 1) \<le> 2 ^ nat (e + 1)"
  proof (cases "0 \<le> e + 1")
    case True
    then show ?thesis by (simp add: two_powi_nonneg)
  next
    case False
    then have "(2::real) powi (e + 1) \<le> 2 powi 0"
      by (intro power_int_increasing) simp_all
    with False show ?thesis by simp
  qed
  with assms(2) have "\<bar>x\<bar> \<le> 2 ^ nat (e + 1)" by simp
  moreover have "nat (e + 1) \<le> 1023" using assms(4) by simp
  ultimately obtain y where y: "to_double x = Fin y"
    using to_double_bound by blast
  then have "y = real_of_int (round_half_even (x / 2 powi (e - 52))) * 2 powi (e - 52)"
    using assms(3) by (simp add: to_double_def Let_def e max_def split: if_splits)
  with y show ?thesis by simp
qed

lemma round_half_even_ge:
  assumes "real_of_int N \<le> v"
  shows "N \<le> round_half_even v"
proof -
  from round_half_even_range [of v] assms
  have "real_of_int (N - 1) < real_of_int (round_half_even v)"
    by simp
  then have "N - 1 < round_half_even v"
    by (simp only: of_int_less_iff)
  then show ?thesis by simp
qed

lemma to_double_overflow:
  assumes "DBL_LIMIT \<le> x"
  shows "to_double x = PInf"
proof -
  define e where "e = float_exponent x"
  define q :: real where "q = 2 powi (e - 52)"
  have L: "0 < DBL_LIMIT" "DBL_LIMIT = 2 powi 1024"
    by (simp_all add: DBL_LIMIT_def)
  with assms have x: "0 < x" by simp
  from float_exponent_bounds [of x] x
  have lo: "2 powi e \<le> x" and hi: "x < 2 powi (e + 1)"
    by (simp_all add: e_def)
  have e: "1024 \<le> e"
  proof (rule ccontr)
    assume "\<not> 1024 \<le> e"
    then have "e + 1 \<le> 1024" by simp
    then have "(2::real) powi (e + 1) \<le> 2 powi 1024"
      by (intro power_int_increasing) simp_all
    with hi assms L(2) show False by simp
  qed
  have q: "0 < q" by (simp add: q_def)
  have "real_of_int (2 ^ 52) * q = 2 powi e"
    by (simp add: q_def power_int_diff)
  then have "real_of_int (2 ^ 52) \<le> x / q"
    using lo q by (simp add: field_simps)
  then have "2 ^ 52 \<le> round_half_even (x / q)"
    by (rule round_half_even_ge)
  then have "real_of_int (2 ^ 52) \<le> real_of_int (round_half_even (x / q))"
    by (simp only: of_int_le_iff)
  then have "real_of_int (2 ^ 52) * q \<le> real_of_int (round_half_even (x / q)) * q"
    using q by (simp only: mult_le_cancel_right_pos)
  moreover have "real_of_int (2 ^ 52) * q = 2 powi e"
    by (simp add: q_def power_int_diff)
  moreover have "(2::real) powi 1024 \<le> 2 powi e"
    using e by (intro power_int_increasing) simp_all
  ultimately have "DBL_LIMIT \<le> real_of_int (round_half_even (x / q)) * q"
    using L(2) by simp
  moreover have "max e (- 1022) = e" using e by simp
  ultimately show ?thesis
    unfolding to_double_def Let_def by (simp add: e_def [symmetric] q_def [symmetric])
qed

lemma py_float_overflow: "2 ^ 1024 \<le> n \<Longrightarrow> py_float n = Inl OverflowError"
proof -
  assume "2 ^ 1024 \<le> n"
  then have "real_of_int (2 ^ 1024) \<le> real_of_int n"
    by (simp only: of_int_le_iff)
  then have "DBL_LIMIT \<le> real_of_int n"
    by (simp add: DBL_LIMIT_def)
  then show ?thesis
    by (simp add: py_float_def to_double_overflow)
qed

lemma translate_coord_overflow_example:
  "translate_coord (1, 1) (0, 0, 0, 0) (0, 0, 2 ^ 1024, 1) = Inl OverflowError"
  by (simp add: translate_coord.simps scale_clamped py_float_overflow)

lemma translate_coord_rounding_example:
  "translate_coord (1200, 450) (0, 0, 1440, 900) (50, 50, 393, 852) = Inr (377, 476)"
proof -
  have sx: "scale 393 1440 = Inr (4916429593212791 / 18014398509481984)"
    using to_double_eval [of "- 2" "393 / 1440"]
    by (simp add: scale_def py_truediv_def round_half_even_def)
  have sy: "scale 852 900 = Inr (8526815294488139 / 9007199254740992)"
    using to_double_eval [of "- 1" "852 / 900"]
    by (simp add: scale_def py_truediv_def round_half_even_def)
  have lx: "py_float 1200 = Inr 1200" and ly: "py_float 450 = Inr 450"
    and c: "py_float 50 = Inr 50"
    using py_float_exact [of 1200] py_float_exact [of 450] py_float_exact [of 50] by simp_all
  have mx: "float_mul 1200 (4916429593212791 / 18014398509481984) =
      Fin (5761440929546239 / 17592186044416)"
    using to_double_eval [of 8 "1200 * (4916429593212791 / 18014398509481984)"]
    by (simp add: float_mul_def round_half_even_def)
  have ax: "to_double (6641050231767039 / 17592186044416) =
      Fin (6641050231767039 / 17592186044416)"
    using to_double_eval [of 8 "6641050231767039 / 17592186044416"]
    by (simp add: round_half_even_def)
  have my: "float_mul 450 (8526815294488139 / 9007199254740992) = Fin 426"
    using to_double_eval [of 8 "450 * (8526815294488139 / 9007199254740992)"]
    by (simp add: float_mul_def round_half_even_def)
  have ay: "to_double 476 = Fin 476"
    using to_double_int [of 476] by simp
  have x: "scaled_coord 50 1200 (4916429593212791 / 18014398509481984) = Inr 377"
    by (simp add: scaled_coord_def lx c mx ax round_half_even_def)
  have y: "scaled_coord 50 450 (8526815294488139 / 9007199254740992) = Inr 476"
    by (simp add: scaled_coord_def ly c my ay round_half_even_def)
  show ?thesis
    by (simp add: translate_coord.simps sx sy x y)
qed

lemma translate_coord_precision_example:
  "translate_coord (2 ^ 53 + 1, 7) (0, 0, 1, 1) (0, 0, 1, 1) = Inr (2 ^ 53, 7)"
proof -
  have s: "scale 1 1 = Inr 1"
    by (simp add: scale_same)
  have big: "py_float 9007199254740993 = Inr 9007199254740992"
    using to_double_eval [of 53 9007199254740993]
    by (simp add: py_float_def round_half_even_def)
  have m: "float_mul 9007199254740992 1 = Fin 9007199254740992"
    using to_double_int [of 9007199254740992] by (simp add: float_mul_def)
  have a: "to_double 9007199254740992 = Fin 9007199254740992"
    using to_double_int [of 9007199254740992] by simp
  have r: "round_half_even 9007199254740992 = 9007199254740992"
    using round_half_even_of_int [of 9007199254740992] by simp
  have z: "py_float 0 = Inr 0"
    using py_float_exact [of 0] by simp
  have x: "scaled_coord 0 9007199254740993 1 = Inr 9007199254740992"
    by (simp add: scaled_coord_def big z m a r)
  have y: "scaled_coord 0 7 1 = Inr 7"
    using scaled_coord_exact [of 7 0 1] by simp
  show ?thesis
    using x y by (simp add: translate_coord.simps s)
qed


subsection \<open>UI state sampler\<close>

text \<open>
  C6. For fingerprints as the sampler produces them (an absent hash, or a digest, which
  is never the empty string), \<open>changed(before, after)\<close> is true exactly when both hashes
  are present and differ; \<open>changed(a, a)\<close> is false, and so is \<open>changed\<close> with an absent
  hash on either side.
\<close>

theorem detect_ui_changes_iff:
  assumes "fingerprint_hash before_hash" and "fingerprint_hash after_hash"
  shows "(detect_ui_changes before_hash after_hash \<longleftrightarrow>
            (\<exists>b a. before_hash = Some b \<and> after_hash = Some a \<and> b \<noteq> a))
         \<and> \<not> detect_ui_changes before_hash before_hash
         \<and> \<not> detect_ui_changes None after_hash
         \<and> \<not> detect_ui_changes before_hash None"
  using assms
  by (cases before_hash; cases after_hash)
     (auto simp: detect_ui_changes_def truthy_def fingerprint_hash_def)

theorem detect_ui_changes_iff_witness:
  "fingerprint_hash (Some ''0123456789abcdef'') \<and> fingerprint_hash (Some ''fedcba9876543210'')
   \<and> detect_ui_changes (Some ''0123456789abcdef'') (Some ''fedcba9876543210'')
   \<and> \<not> detect_ui_changes (Some ''0123456789abcdef'') (Some ''0123456789abcdef'')
   \<and> \<not> detect_ui_changes None (Some ''fedcba9876543210'')
   \<and> \<not> detect_ui_changes (Some ''0123456789abcdef'') None"
proof -
  have b: "fingerprint_hash (Some ''0123456789abcdef'')"
    by (simp add: fingerprint_hash_def)
  have a: "fingerprint_hash (Some ''fedcba9876543210'')"
    by (simp add: fingerprint_hash_def)
  show ?thesis
    using detect_ui_changes_iff [OF b a] a b by simp
qed

subsection \<open>Geometry translator\<close>

text \<open>
  C2, as stated, fails: for a recorded rectangle of width and height zero the divisor is
  clamped to 1, so the scale factor is the current width (800), not 1.0, and the offset
  (10, 10) is mapped to (8000, 16000) instead of passing through.
\<close>

theorem translate_degenerate_scale_counterexample:
  "scale 800 0 = Inr 800
   \<and> translate_coord (10, 10) (0, 0, 0, 0) (0, 0, 800, 1600) = Inr (8000, 16000)"
proof -
  have s: "scale 800 0 = Inr 800" "scale 1600 0 = Inr 1600"
    using py_float_exact [of 800] py_float_exact [of 1600] by (simp_all add: scale_clamped)
  have x: "scaled_coord 0 10 800 = Inr 8000"
    using scaled_coord_exact [of 10 0 800] by simp
  have y: "scaled_coord 0 10 1600 = Inr 16000"
    using scaled_coord_exact [of 10 0 1600] by simp
  show ?thesis
    by (simp add: translate_coord.simps s x y)
qed

text \<open>
  C2, amended. The translation never raises a division by zero, whatever the rectangles;
  when the recorded width (height) is zero the divisor is clamped to 1, so the scale
  factor of that axis is the current width (height) converted to a float, the width
  itself up to \<open>2\<^sup>5\<^sup>3\<close>, and not 1.0; and for points, origins and current sizes of magnitude
  at most \<open>2\<^sup>5\<^sup>1\<^sup>0\<close> nothing is raised and a point is returned. (Integers beyond the range
  of a double do raise: see \<open>translate_coord_overflow_example\<close>.)
\<close>

theorem translate_coord_total_degenerate:
  "translate_coord (rx, ry) (r_x, r_y, r_w, r_h) (c_x, c_y, c_w, c_h) \<noteq> Inl ZeroDivisionError
   \<and> (r_w = 0 \<longrightarrow> scale c_w r_w = py_float c_w
         \<and> (\<bar>c_w\<bar> \<le> 2 ^ 53 \<longrightarrow> scale c_w r_w = Inr (real_of_int c_w)))
   \<and> (r_h = 0 \<longrightarrow> scale c_h r_h = py_float c_h
         \<and> (\<bar>c_h\<bar> \<le> 2 ^ 53 \<longrightarrow> scale c_h r_h = Inr (real_of_int c_h)))
   \<and> (k \<le> 510 \<and> fits k rx \<and> fits k ry \<and> fits k r_x \<and> fits k r_y
        \<and> fits k c_x \<and> fits k c_y \<and> fits k c_w \<and> fits k c_h \<longrightarrow>
        (\<exists>nx ny. translate_coord (rx, ry) (r_x, r_y, r_w, r_h) (c_x, c_y, c_w, c_h) = Inr (nx, ny)))"
proof (intro conjI impI)
  show "translate_coord (rx, ry) (r_x, r_y, r_w, r_h) (c_x, c_y, c_w, c_h) \<noteq> Inl ZeroDivisionError"
  proof
    assume "translate_coord (rx, ry) (r_x, r_y, r_w, r_h) (c_x, c_y, c_w, c_h) = Inl ZeroDivisionError"
    from translate_coord_error [OF this] show False by simp
  qed
  show "scale c_w r_w = py_float c_w" if "r_w = 0"
    using that by (simp add: scale_clamped)
  show "scale c_w r_w = Inr (real_of_int c_w)" if "r_w = 0" "\<bar>c_w\<bar> \<le> 2 ^ 53"
    using that by (simp add: scale_clamped py_float_exact)
  show "scale c_h r_h = py_float c_h" if "r_h = 0"
    using that by (simp add: scale_clamped)
  show "scale c_h r_h = Inr (real_of_int c_h)" if "r_h = 0" "\<bar>c_h\<bar> \<le> 2 ^ 53"
    using that by (simp add: scale_clamped py_float_exact)
  show "\<exists>nx ny. translate_coord (rx, ry) (r_x, r_y, r_w, r_h) (c_x, c_y, c_w, c_h) = Inr (nx, ny)"
    if b: "k \<le> 510 \<and> fits k rx \<and> fits k ry \<and> fits k r_x \<and> fits k r_y
        \<and> fits k c_x \<and> fits k c_y \<and> fits k c_w \<and> fits k c_h"
  proof -
    from b have k: "k \<le> 510" "k \<le> 1023" by simp_all
    have diff: "\<bar>u - v\<bar> \<le> 2 ^ Suc k" if "fits k u" "fits k v" for u v :: int
    proof -
      have "\<bar>u - v\<bar> \<le> \<bar>u\<bar> + \<bar>v\<bar>" by simp
      also have "\<dots> \<le> 2 ^ k + 2 ^ k" using that by (simp add: fits_def)
      finally show ?thesis by simp
    qed
    from b have f: "fits k rx" "fits k r_x" "fits k ry" "fits k r_y"
      by simp_all
    have lx: "\<bar>rx - r_x\<bar> \<le> 2 ^ Suc k" and ly: "\<bar>ry - r_y\<bar> \<le> 2 ^ Suc k"
      by (rule diff [OF f(1,2)], rule diff [OF f(3,4)])
    from b have cx: "\<bar>c_x\<bar> \<le> 2 ^ k" and cy: "\<bar>c_y\<bar> \<le> 2 ^ k"
      and cw: "\<bar>c_w\<bar> \<le> 2 ^ k" and ch: "\<bar>c_h\<bar> \<le> 2 ^ k"
      by (simp_all add: fits_def)
    from scale_bound [OF cw k(2)] obtain sx where sx: "scale c_w r_w = Inr sx" "\<bar>sx\<bar> \<le> 2 ^ k"
      by blast
    from scale_bound [OF ch k(2)] obtain sy where sy: "scale c_h r_h = Inr sy" "\<bar>sy\<bar> \<le> 2 ^ k"
      by blast
    from scaled_coord_total [OF cx lx sx(2) k(1)] obtain nx where nx: "scaled_coord c_x (rx - r_x) sx = Inr nx"
      by blast
    from scaled_coord_total [OF cy ly sy(2) k(1)] obtain ny where ny: "scaled_coord c_y (ry - r_y) sy = Inr ny"
      by blast
    show ?thesis
      by (simp add: translate_coord.simps sx nx sy ny)
  qed
qed

theorem translate_coord_total_degenerate_witness:
  "fits 11 10 \<and> fits 11 0 \<and> fits 11 800 \<and> fits 11 1600
   \<and> translate_coord (10, 10) (0, 0, 0, 0) (0, 0, 800, 1600) \<noteq> Inl ZeroDivisionError
   \<and> scale 800 0 = Inr 800
   \<and> (\<exists>nx ny. translate_coord (10, 10) (0, 0, 0, 0) (0, 0, 800, 1600) = Inr (nx, ny))"
proof -
  have f: "fits 11 10" "fits 11 0" "fits 11 800" "fits 11 1600"
    by (simp_all add: fits_def)
  have k: "(11::nat) \<le> 510"
    by simp
  have w: "\<bar>800::int\<bar> \<le> 2 ^ 53"
    by simp
  note t = translate_coord_total_degenerate [where rx = 10 and ry = 10 and r_x = 0 and r_y = 0
      and r_w = 0 and r_h = 0 and c_x = 0 and c_y = 0 and c_w = 800 and c_h = 1600 and k = 11]
  from t have "translate_coord (10, 10) (0, 0, 0, 0) (0, 0, 800, 1600) \<noteq> Inl ZeroDivisionError"
    by blast
  moreover have "scale 800 0 = Inr 800"
  proof -
    from t w have "scale 800 0 = Inr (real_of_int 800)"
      by blast
    then show ?thesis by simp
  qed
  moreover from t f k have "\<exists>nx ny. translate_coord (10, 10) (0, 0, 0, 0) (0, 0, 800, 1600) = Inr (nx, ny)"
    by blast
  ultimately show ?thesis
    using f by blast
qed

text \<open>
  C3, as stated, fails on a degenerate rectangle: with width and height zero the scale
  factors are 0 / 1 = 0, and every point is sent to the rectangle's origin.
\<close>

theorem translate_identity_counterexample:
  "translate_coord (10, 10) (0, 0, 0, 0) (0, 0, 0, 0) = Inr (0, 0)
   \<and> translate_coord (10, 10) (0, 0, 0, 0) (0, 0, 0, 0) \<noteq> Inr (10, 10)"
proof -
  have s: "scale 0 0 = Inr 0"
    using py_float_exact [of 0] by (simp add: scale_clamped)
  have x: "scaled_coord 0 10 0 = Inr 0"
    using scaled_coord_exact [of 10 0 0] by simp
  show ?thesis
    by (simp add: translate_coord.simps s x)
qed

text \<open>
  C3, amended. For every rectangle whose width and height are at least 1, and every
  point such that its coordinates, the rectangle's origin and their differences have
  magnitude at most \<open>2\<^sup>5\<^sup>3\<close> (the integers that a double holds exactly), translating the
  point from the rectangle to itself returns the point unchanged. (Beyond that range the
  point is rounded: see \<open>translate_coord_precision_example\<close>.)
\<close>

theorem translate_coord_identity:
  assumes "1 \<le> r_w" and "1 \<le> r_h"
    and "\<bar>px\<bar> \<le> 2 ^ 53" and "\<bar>r_x\<bar> \<le> 2 ^ 53" and "\<bar>px - r_x\<bar> \<le> 2 ^ 53"
    and "\<bar>py\<bar> \<le> 2 ^ 53" and "\<bar>r_y\<bar> \<le> 2 ^ 53" and "\<bar>py - r_y\<bar> \<le> 2 ^ 53"
  shows "translate_coord (px, py) (r_x, r_y, r_w, r_h) (r_x, r_y, r_w, r_h) = Inr (px, py)"
proof -
  have x: "scaled_coord r_x (px - r_x) 1 = Inr px"
    using scaled_coord_exact [of "px - r_x" r_x 1] assms(3,4,5) by simp
  have y: "scaled_coord r_y (py - r_y) 1 = Inr py"
    using scaled_coord_exact [of "py - r_y" r_y 1] assms(6,7,8) by simp
  show ?thesis
    using assms(1,2) by (simp add: translate_coord.simps scale_same x y)
qed

theorem translate_coord_identity_witness:
  "(1::int) \<le> 400 \<and> (1::int) \<le> 800
   \<and> translate_coord (100, 200) (50, 50, 400, 800) (50, 50, 400, 800) = Inr (100, 200)"
proof -
  have w: "(1::int) \<le> 400" and h: "(1::int) \<le> 800"
    by simp_all
  have b: "\<bar>100::int\<bar> \<le> 2 ^ 53" "\<bar>50::int\<bar> \<le> 2 ^ 53" "\<bar>100 - 50::int\<bar> \<le> 2 ^ 53"
    "\<bar>200::int\<bar> \<le> 2 ^ 53" "\<bar>200 - 50::int\<bar> \<le> 2 ^ 53"
    by simp_all
  from translate_coord_identity [OF w h b(1,2,3) b(4) b(2) b(5)] w h show ?thesis
    by simp
qed

subsection \<open>Matching cascade\<close>

lemma template_match_mono:
  "c' \<le> c \<Longrightarrow> cv2_template_match w p s c = Some hit \<Longrightarrow> cv2_template_match w p s c' = Some hit"
  by (auto simp: cv2_template_match_def split: if_splits option.splits)

lemma template_match_same_hit:
  "cv2_template_match w p s c = Some hit \<Longrightarrow> cv2_template_match w p s c' = Some hit'
     \<Longrightarrow> hit' = hit"
  by (auto simp: cv2_template_match_def split: if_splits option.splits)

lemma template_loop_fst:
  "fst (template_loop w p s attr cs tr) =
     (case find (\<lambda>c. cv2_template_match w p s c \<noteq> None) cs of
        None \<Rightarrow> None
      | Some c \<Rightarrow> map_option hit_point (cv2_template_match w p s c))"
  by (induction cs arbitrary: tr) (auto simp: hit_point_def split: option.splits)

lemma template_loop_flat:
  "template_loop w p s attr cs tr =
     (fst (first_success w s (map (\<lambda>c. (Template attr c, p)) cs)),
      tr @ snd (first_success w s (map (\<lambda>c. (Template attr c, p)) cs)))"
  by (induction cs arbitrary: tr) (auto simp: hit_point_def split: option.splits)

lemma first_success_append:
  "first_success w s (xs @ ys) =
     (case fst (first_success w s xs) of
        Some p \<Rightarrow> first_success w s xs
      | None \<Rightarrow> (fst (first_success w s ys),
                 snd (first_success w s xs) @ snd (first_success w s ys)))"
  by (induction xs) (auto split: option.splits)

lemma match_region_flat:
  "match_region w p s attr tr =
     (fst (first_success w s (map (\<lambda>c. (Template attr c, p)) confs @ [(Feature attr, p)])),
      tr @ snd (first_success w s (map (\<lambda>c. (Template attr c, p)) confs @ [(Feature attr, p)])))"
  by (auto simp: match_region_def template_loop_flat first_success_append hit_point_def
      split: option.splits prod.splits)

lemma ocr_step_flat:
  "ocr_step w ev s tr =
     (fst (first_success w s (text_schedule ev)), tr @ snd (first_success w s (text_schedule ev)))"
  by (auto simp: ocr_step_def text_schedule_def hit_point_def Let_def split: option.splits)

lemma attr_loop_flat:
  "attr_loop w ev sd s attrs tr =
     (fst (first_success w s
        (concat (map (\<lambda>attr. raster_schedule w ev sd attr @ feature_schedule w ev sd attr) attrs)
         @ text_schedule ev)),
      tr @ snd (first_success w s
        (concat (map (\<lambda>attr. raster_schedule w ev sd attr @ feature_schedule w ev sd attr) attrs)
         @ text_schedule ev)))"
proof (induction attrs arbitrary: tr)
  case Nil
  then show ?case by (simp add: ocr_step_flat)
next
  case (Cons attr rest)
  show ?case
  proof (cases "region_candidate w ev sd attr")
    case None
    then have "raster_schedule w ev sd attr @ feature_schedule w ev sd attr = []"
      by (simp add: raster_schedule_def feature_schedule_def)
    moreover have "attr_loop w ev sd s (attr # rest) tr = attr_loop w ev sd s rest tr"
      using None by (auto simp: region_candidate_def split: option.splits if_splits)
    ultimately show ?thesis
      using Cons.IH [of tr] by simp
  next
    case (Some candidate)
    then have sched: "raster_schedule w ev sd attr @ feature_schedule w ev sd attr =
        map (\<lambda>c. (Template attr c, candidate)) confs @ [(Feature attr, candidate)]"
      by (simp add: raster_schedule_def feature_schedule_def)
    have step: "attr_loop w ev sd s (attr # rest) tr =
        (case match_region w candidate s attr tr of
           (Some p, tr') \<Rightarrow> (Some p, tr')
         | (None, tr') \<Rightarrow> attr_loop w ev sd s rest tr')"
      using Some by (auto simp: region_candidate_def split: option.splits if_splits)
    define R where "R = map (\<lambda>c. (Template attr c, candidate)) confs @ [(Feature attr, candidate)]"
    define T where "T = concat (map (\<lambda>attr. raster_schedule w ev sd attr @ feature_schedule w ev sd attr) rest)
         @ text_schedule ev"
    have m: "match_region w candidate s attr tr = (fst (first_success w s R), tr @ snd (first_success w s R))"
      by (simp add: match_region_flat R_def)
    have app: "first_success w s (R @ T) =
        (case fst (first_success w s R) of
           Some p \<Rightarrow> first_success w s R
         | None \<Rightarrow> (fst (first_success w s T), snd (first_success w s R) @ snd (first_success w s T)))"
      by (rule first_success_append)
    have ih: "attr_loop w ev sd s rest tr' =
        (fst (first_success w s T), tr' @ snd (first_success w s T))" for tr'
      unfolding T_def by (rule Cons.IH)
    have whole: "concat (map (\<lambda>attr. raster_schedule w ev sd attr @ feature_schedule w ev sd attr) (attr # rest))
         @ text_schedule ev = R @ T"
      by (simp add: sched R_def T_def)
    show ?thesis
    proof (cases "fst (first_success w s R)")
      case None
      then show ?thesis
        unfolding whole by (simp add: step m app ih del: attr_loop.simps)
    next
      case (Some p)
      then show ?thesis
        unfolding whole by (simp add: step m app del: attr_loop.simps)
    qed
  qed
qed

lemma try_find_flat:
  "try_find_click_target w ev sd =
     (case safe_screenshot w of
        None \<Rightarrow> (None, [])
      | Some s \<Rightarrow> first_success w s (attempt_schedule w ev sd))"
  by (simp add: try_find_click_target_def attempt_schedule_def attr_loop_flat split: option.splits)

lemma event_get_clear:
  "a \<in> set img_attrs \<Longrightarrow> event_get (event_clear a ev) b = (if b = a then None else event_get ev b)"
  by (auto simp: img_attrs_def event_get_def event_clear_def)

lemma region_candidate_clear:
  "a \<in> set img_attrs \<Longrightarrow>
     region_candidate w (event_clear a ev) sd b = (if b = a then None else region_candidate w ev sd b)"
  by (simp add: region_candidate_def event_get_clear)

lemma text_schedule_clear: "a \<in> set img_attrs \<Longrightarrow> text_schedule (event_clear a ev) = text_schedule ev"
  by (auto simp: text_schedule_def event_get_clear img_attrs_def)

lemma filter_region_schedule:
  "filter (other_than a) (raster_schedule w ev sd b @ feature_schedule w ev sd b) =
     (if b = a then [] else raster_schedule w ev sd b @ feature_schedule w ev sd b)"
  by (auto simp: raster_schedule_def feature_schedule_def other_than_def filter_empty_conv
      split: option.splits)

lemma filter_text_schedule: "filter (other_than a) (text_schedule ev) = text_schedule ev"
  by (auto simp: text_schedule_def other_than_def split: option.splits)

lemma region_schedule_clear:
  "a \<in> set img_attrs \<Longrightarrow>
     raster_schedule w (event_clear a ev) sd b @ feature_schedule w (event_clear a ev) sd b =
     filter (other_than a) (raster_schedule w ev sd b @ feature_schedule w ev sd b)"
  unfolding filter_region_schedule
  by (simp add: raster_schedule_def feature_schedule_def region_candidate_clear)

lemma attempt_schedule_clear:
  assumes "a \<in> set img_attrs"
  shows "attempt_schedule w (event_clear a ev) sd = filter (other_than a) (attempt_schedule w ev sd)"
proof -
  have "concat (map (\<lambda>b. raster_schedule w (event_clear a ev) sd b
                         @ feature_schedule w (event_clear a ev) sd b) attrs) =
        filter (other_than a)
          (concat (map (\<lambda>b. raster_schedule w ev sd b @ feature_schedule w ev sd b) attrs))"
    for attrs
    by (simp add: filter_concat comp_def region_schedule_clear [OF assms] del: filter_append)
  then show ?thesis
    by (simp add: attempt_schedule_def text_schedule_clear [OF assms] filter_text_schedule)
qed

lemma first_success_filter:
  assumes "\<And>x. x \<in> set xs \<Longrightarrow> \<not> P x \<Longrightarrow> run_attempt w s x = None"
    and "\<And>x. P x = Q (fst x)"
  shows "fst (first_success w s (filter P xs)) = fst (first_success w s xs)
       \<and> snd (first_success w s (filter P xs)) = filter Q (snd (first_success w s xs))"
  using assms(1)
proof (induction xs)
  case Nil
  then show ?case by simp
next
  case (Cons x xs)
  then have ih: "fst (first_success w s (filter P xs)) = fst (first_success w s xs)
       \<and> snd (first_success w s (filter P xs)) = filter Q (snd (first_success w s xs))"
    by simp
  show ?case
  proof (cases "P x")
    case True
    then have "Q (fst x)" using assms(2) by simp
    with True ih show ?thesis by (simp split: option.splits)
  next
    case False
    then have "run_attempt w s x = None" using Cons.prems by simp
    moreover have "\<not> Q (fst x)" using False assms(2) by simp
    ultimately show ?thesis using False ih by simp
  qed
qed

lemma first_success_None:
  "fst (first_success w s xs) = None \<Longrightarrow> snd (first_success w s xs) = map fst xs"
  by (induction xs) (auto split: option.splits)

lemma attempt_schedule_region:
  assumes "x \<in> set (attempt_schedule w ev sd)" and "attempt_attr (fst x) = Some a"
  shows "x \<in> set (raster_schedule w ev sd a @ feature_schedule w ev sd a)"
  using assms
  by (auto simp: attempt_schedule_def raster_schedule_def feature_schedule_def text_schedule_def
      split: option.splits if_splits)

lemma unreadable_attempts_fail:
  assumes "region_candidate w ev sd a = Some candidate"
    and "imread w candidate = None" and "image_open w candidate = None"
    and "x \<in> set (raster_schedule w ev sd a @ feature_schedule w ev sd a)"
  shows "run_attempt w s x = None"
  using assms
  by (auto simp: raster_schedule_def feature_schedule_def cv2_template_match_def orb_match_def)

text \<open>
  C10. For every stored template and every frame, the loop over the four descending
  thresholds accepts exactly when a single call at the lowest threshold 0.45 accepts,
  and returns the same point.
\<close>

theorem template_loop_lowest_threshold:
  "fst (template_loop w candidate screenshot attr confs tr) =
     map_option hit_point
       (cv2_template_match w candidate screenshot TEMPLATE_CONF_VERY_RELAXED)"
proof (cases "cv2_template_match w candidate screenshot TEMPLATE_CONF_VERY_RELAXED")
  case None
  have "cv2_template_match w candidate screenshot c = None" if "c \<in> set confs" for c
  proof (rule ccontr)
    assume "cv2_template_match w candidate screenshot c \<noteq> None"
    then obtain hit where "cv2_template_match w candidate screenshot c = Some hit"
      by blast
    moreover have "TEMPLATE_CONF_VERY_RELAXED \<le> c"
      using that
      by (auto simp: confs_def TEMPLATE_CONF_HIGH_def TEMPLATE_CONF_DEFAULT_def
          TEMPLATE_CONF_RELAXED_def TEMPLATE_CONF_VERY_RELAXED_def)
    ultimately show False
      using None template_match_mono by fastforce
  qed
  then have "find (\<lambda>c. cv2_template_match w candidate screenshot c \<noteq> None) confs = None"
    by (simp add: find_None_iff)
  with None show ?thesis
    by (simp add: template_loop_fst)
next
  case (Some hit)
  have last: "TEMPLATE_CONF_VERY_RELAXED \<in> set confs"
    by (simp add: confs_def)
  have ne: "cv2_template_match w candidate screenshot TEMPLATE_CONF_VERY_RELAXED \<noteq> None"
    using Some by simp
  have "find (\<lambda>c. cv2_template_match w candidate screenshot c \<noteq> None) confs \<noteq> None"
    unfolding find_None_iff using last ne by blast
  then obtain c where
    c: "find (\<lambda>c. cv2_template_match w candidate screenshot c \<noteq> None) confs = Some c"
    by (auto simp only: not_None_eq)
  then obtain hit' where hit': "cv2_template_match w candidate screenshot c = Some hit'"
    by (auto simp: find_Some_iff)
  from template_match_same_hit [OF hit' Some] have "hit = hit'" .
  with c hit' Some show ?thesis
    by (simp add: template_loop_fst)
qed


theorem template_loop_lowest_threshold_witness:
  "fst (template_loop ex_world ''medium.png'' ex_shot ''img_medium'' confs []) = Some (100, 100)"
  using template_loop_lowest_threshold [of ex_world "''medium.png''" ex_shot "''img_medium''" "[]"]
  by (simp add: cv2_template_match_def ex_world_def ex_medium_def TEMPLATE_CONF_VERY_RELAXED_def
      hit_point_def)

text \<open>
  C1, as stated, fails: feature matching on a region is attempted before raster matching
  on the next region. In \<open>ex_world\<close> the code returns the feature match (7, 7) of the
  small region and never tries the medium region, whose raster match (100, 100) the
  order of the specification finds first.
\<close>

theorem cascade_order_counterexample:
  "try_find_click_target ex_world ex_event ''rec'' =
     (Some (7, 7),
      [Template ''img_small'' TEMPLATE_CONF_HIGH, Template ''img_small'' TEMPLATE_CONF_DEFAULT,
       Template ''img_small'' TEMPLATE_CONF_RELAXED, Template ''img_small'' TEMPLATE_CONF_VERY_RELAXED,
       Feature ''img_small''])
   \<and> locate_spec ex_world ex_event ''rec'' =
     (Some (100, 100),
      [Template ''img_small'' TEMPLATE_CONF_HIGH, Template ''img_small'' TEMPLATE_CONF_DEFAULT,
       Template ''img_small'' TEMPLATE_CONF_RELAXED, Template ''img_small'' TEMPLATE_CONF_VERY_RELAXED,
       Template ''img_medium'' TEMPLATE_CONF_HIGH])"
proof -
  have small: "cv2_template_match ex_world ''small.png'' ex_shot c = None" if "45 / 100 \<le> c" for c
    using that by (simp add: cv2_template_match_def ex_world_def ex_small_def)
  have medium: "cv2_template_match ex_world ''medium.png'' ex_shot TEMPLATE_CONF_HIGH = Some (100, 100, 9 / 10)"
    by (simp add: cv2_template_match_def ex_world_def ex_medium_def TEMPLATE_CONF_HIGH_def)
  have orb: "orb_match ex_world ''small.png'' ex_shot = Some (7, 7, 1)"
    by (simp add: orb_match_def ex_world_def ex_small_def)
  have cs: "cv2_template_match ex_world ''small.png'' ex_shot TEMPLATE_CONF_HIGH = None"
    "cv2_template_match ex_world ''small.png'' ex_shot TEMPLATE_CONF_DEFAULT = None"
    "cv2_template_match ex_world ''small.png'' ex_shot TEMPLATE_CONF_RELAXED = None"
    "cv2_template_match ex_world ''small.png'' ex_shot TEMPLATE_CONF_VERY_RELAXED = None"
    by (simp_all add: small TEMPLATE_CONF_HIGH_def TEMPLATE_CONF_DEFAULT_def
        TEMPLATE_CONF_RELAXED_def TEMPLATE_CONF_VERY_RELAXED_def)
  have shot: "safe_screenshot ex_world = Some ex_shot"
    by (simp add: ex_world_def)
  have get: "event_get ex_event ''img_small'' = Some ''small.png''"
    "event_get ex_event ''img_medium'' = Some ''medium.png''"
    "event_get ex_event ''img_large'' = None"
    "event_get ex_event ''img_micro'' = None"
    "event_get ex_event ''img_context'' = None"
    "event_get ex_event ''ocr_text'' = None"
    by (simp_all add: event_get_def ex_event_def)
  have res: "resolve_candidate ex_world ''rec'' p = Some p" for p
    by (simp add: resolve_candidate_def ex_world_def)
  have code: "try_find_click_target ex_world ex_event ''rec'' =
     (Some (7, 7),
      [Template ''img_small'' TEMPLATE_CONF_HIGH, Template ''img_small'' TEMPLATE_CONF_DEFAULT,
       Template ''img_small'' TEMPLATE_CONF_RELAXED, Template ''img_small'' TEMPLATE_CONF_VERY_RELAXED,
       Feature ''img_small''])"
    by (simp add: try_find_click_target_def shot img_attrs_def get res match_region_def confs_def
        cs orb)
  have spec: "locate_spec ex_world ex_event ''rec'' =
     (Some (100, 100),
      [Template ''img_small'' TEMPLATE_CONF_HIGH, Template ''img_small'' TEMPLATE_CONF_DEFAULT,
       Template ''img_small'' TEMPLATE_CONF_RELAXED, Template ''img_small'' TEMPLATE_CONF_VERY_RELAXED,
       Template ''img_medium'' TEMPLATE_CONF_HIGH])"
    by (simp add: locate_spec_def shot spec_schedule_def img_attrs_def raster_schedule_def
        feature_schedule_def text_schedule_def region_candidate_def get res confs_def cs medium
        hit_point_def)
  from code spec show ?thesis by simp
qed

text \<open>
  C1, amended. For every stored event, the cascade goes through the regions that are
  present (and whose file is found) in the order small, medium, large, micro, context;
  on each region it tries raster matching at the four thresholds and then feature
  matching on that same region, before it moves to the next region; text matching comes
  last; the first success ends the cascade with that attempt's point.
\<close>

theorem cascade_order:
  "try_find_click_target w ev script_dir =
     (case safe_screenshot w of
        None \<Rightarrow> (None, [])
      | Some screenshot \<Rightarrow> first_success w screenshot (attempt_schedule w ev script_dir))
   \<and> attempt_schedule w ev script_dir =
       concat (map (\<lambda>attr. case region_candidate w ev script_dir attr of
                             None \<Rightarrow> []
                           | Some candidate \<Rightarrow>
                               [(Template attr TEMPLATE_CONF_HIGH, candidate),
                                (Template attr TEMPLATE_CONF_DEFAULT, candidate),
                                (Template attr TEMPLATE_CONF_RELAXED, candidate),
                                (Template attr TEMPLATE_CONF_VERY_RELAXED, candidate),
                                (Feature attr, candidate)])
                 [''img_small'', ''img_medium'', ''img_large'', ''img_micro'', ''img_context''])
       @ text_schedule ev"
proof
  show "try_find_click_target w ev script_dir =
     (case safe_screenshot w of
        None \<Rightarrow> (None, [])
      | Some screenshot \<Rightarrow> first_success w screenshot (attempt_schedule w ev script_dir))"
    by (rule try_find_flat)
  have region: "raster_schedule w ev script_dir attr @ feature_schedule w ev script_dir attr =
      (case region_candidate w ev script_dir attr of
         None \<Rightarrow> []
       | Some candidate \<Rightarrow>
           [(Template attr TEMPLATE_CONF_HIGH, candidate),
            (Template attr TEMPLATE_CONF_DEFAULT, candidate),
            (Template attr TEMPLATE_CONF_RELAXED, candidate),
            (Template attr TEMPLATE_CONF_VERY_RELAXED, candidate),
            (Feature attr, candidate)])" for attr
    by (simp add: raster_schedule_def feature_schedule_def confs_def split: option.splits)
  show "attempt_schedule w ev script_dir =
       concat (map (\<lambda>attr. case region_candidate w ev script_dir attr of
                             None \<Rightarrow> []
                           | Some candidate \<Rightarrow>
                               [(Template attr TEMPLATE_CONF_HIGH, candidate),
                                (Template attr TEMPLATE_CONF_DEFAULT, candidate),
                                (Template attr TEMPLATE_CONF_RELAXED, candidate),
                                (Template attr TEMPLATE_CONF_VERY_RELAXED, candidate),
                                (Feature attr, candidate)])
                 [''img_small'', ''img_medium'', ''img_large'', ''img_micro'', ''img_context''])
       @ text_schedule ev"
    unfolding attempt_schedule_def img_attrs_def region ..
qed

theorem cascade_order_witness:
  "try_find_click_target ex_world ex_event ''rec'' =
     first_success ex_world ex_shot (attempt_schedule ex_world ex_event ''rec'')"
  using cascade_order [of ex_world ex_event "''rec''", THEN conjunct1]
  by (simp add: ex_world_def)

text \<open>
  C8. When the file of a stored region is missing (at the stored path and under the
  recording's image directory) or cannot be read, the cascade returns what it returns
  for the event without that region, and its attempts on the other regions and on the
  text are exactly those it makes for the event without that region; when a frame was
  captured and nothing matches, every attempt of the schedule was made and the result
  is absent. No branch raises: a failure of a matcher is its result \<open>None\<close>.
\<close>

theorem unusable_region_skipped:
  assumes "a \<in> set img_attrs" and "event_get ev a = Some pth" and "pth \<noteq> []"
    and "resolve_candidate w script_dir pth = None
         \<or> (\<exists>candidate. resolve_candidate w script_dir pth = Some candidate
               \<and> imread w candidate = None \<and> image_open w candidate = None)"
  shows "fst (try_find_click_target w ev script_dir) =
           fst (try_find_click_target w (event_clear a ev) script_dir)
       \<and> filter (\<lambda>t. attempt_attr t \<noteq> Some a) (snd (try_find_click_target w ev script_dir)) =
           snd (try_find_click_target w (event_clear a ev) script_dir)
       \<and> (safe_screenshot w \<noteq> None \<and> fst (try_find_click_target w ev script_dir) = None \<longrightarrow>
            snd (try_find_click_target w ev script_dir) = map fst (attempt_schedule w ev script_dir))"
proof (cases "safe_screenshot w")
  case None
  then show ?thesis
    by (simp add: try_find_click_target_def)
next
  case (Some s)
  have fail: "run_attempt w s x = None"
    if "x \<in> set (attempt_schedule w ev script_dir)" and "\<not> other_than a x" for x
  proof -
    from that(2) have "attempt_attr (fst x) = Some a"
      by (simp add: other_than_def)
    with that(1) have x: "x \<in> set (raster_schedule w ev script_dir a @ feature_schedule w ev script_dir a)"
      by (rule attempt_schedule_region)
    from assms(4) show ?thesis
    proof
      assume "resolve_candidate w script_dir pth = None"
      with assms(2,3) have "region_candidate w ev script_dir a = None"
        by (simp add: region_candidate_def)
      with x show ?thesis
        by (simp add: raster_schedule_def feature_schedule_def)
    next
      assume "\<exists>candidate. resolve_candidate w script_dir pth = Some candidate
               \<and> imread w candidate = None \<and> image_open w candidate = None"
      then obtain candidate where c: "resolve_candidate w script_dir pth = Some candidate"
        "imread w candidate = None" "image_open w candidate = None"
        by blast
      with assms(2,3) have "region_candidate w ev script_dir a = Some candidate"
        by (simp add: region_candidate_def)
      from unreadable_attempts_fail [OF this c(2,3) x] show ?thesis .
    qed
  qed
  have "fst (first_success w s (filter (other_than a) (attempt_schedule w ev script_dir))) =
          fst (first_success w s (attempt_schedule w ev script_dir))
      \<and> snd (first_success w s (filter (other_than a) (attempt_schedule w ev script_dir))) =
          filter (\<lambda>t. attempt_attr t \<noteq> Some a) (snd (first_success w s (attempt_schedule w ev script_dir)))"
    by (rule first_success_filter) (simp_all add: fail other_than_def)
  then show ?thesis
    using Some
    by (simp add: try_find_flat attempt_schedule_clear [OF assms(1)] first_success_None)
qed

theorem unusable_region_skipped_witness:
  "fst (try_find_click_target ex_world_missing ex_event ''rec'') =
     fst (try_find_click_target ex_world_missing (event_clear ''img_small'' ex_event) ''rec'')
   \<and> filter (\<lambda>t. attempt_attr t \<noteq> Some ''img_small'')
        (snd (try_find_click_target ex_world_missing ex_event ''rec'')) =
      snd (try_find_click_target ex_world_missing (event_clear ''img_small'' ex_event) ''rec'')"
proof -
  have a: "''img_small'' \<in> set img_attrs"
    by (simp add: img_attrs_def)
  have g: "event_get ex_event ''img_small'' = Some ''small.png''"
    by (simp add: event_get_def ex_event_def)
  have n: "''small.png'' \<noteq> []"
    by simp
  have r: "resolve_candidate ex_world_missing ''rec'' ''small.png'' = None
         \<or> (\<exists>candidate. resolve_candidate ex_world_missing ''rec'' ''small.png'' = Some candidate
               \<and> imread ex_world_missing candidate = None
               \<and> image_open ex_world_missing candidate = None)"
    by (simp add: resolve_candidate_def ex_world_missing_def ex_world_def path_name_def)
  from unusable_region_skipped [OF a g n r] show ?thesis
    by blast
qed


subsection \<open>Action executor\<close>

lemma try_points_flat:
  "try_points plat ps tr =
     (fst (first_ok plat (length tr) ps), tr @ snd (first_ok plat (length tr) ps))"
  by (induction ps arbitrary: tr) auto

lemma first_ok_append:
  "first_ok plat n (ps @ qs) =
     (if fst (first_ok plat n ps) then first_ok plat n ps
      else (fst (first_ok plat (n + length ps) qs),
            snd (first_ok plat n ps) @ snd (first_ok plat (n + length ps) qs)))"
  by (induction ps arbitrary: n) auto

lemma first_ok_fail_length:
  "\<not> fst (first_ok plat n ps) \<Longrightarrow> snd (first_ok plat n ps) = ps"
  by (induction ps arbitrary: n) (auto split: if_splits)

lemma radius_loop_flat:
  "radius_loop plat x y rs tr =
     (fst (first_ok plat (length tr) (map (offset_by x y) (concat (map ring rs)))),
      tr @ snd (first_ok plat (length tr) (map (offset_by x y) (concat (map ring rs)))))"
proof (induction rs arbitrary: tr)
  case Nil
  then show ?case by simp
next
  case (Cons r rs)
  show ?case
  proof (cases "fst (first_ok plat (length tr) (map (offset_by x y) (ring r)))")
    case True
    then show ?thesis
      by (simp add: try_points_flat first_ok_append)
  next
    case False
    then show ?thesis
      by (simp add: try_points_flat first_ok_append Cons.IH first_ok_fail_length)
  qed
qed

lemma intelligent_click_flat:
  "intelligent_click plat x y m = first_ok plat 0 (click_schedule x y m)"
proof (cases "plat 0 (x, y)")
  case True
  then show ?thesis
    by (simp add: intelligent_click_def click_schedule_def)
next
  case False
  show ?thesis
  proof (cases "fst (first_ok plat (Suc 0) (map (offset_by x y) steps))")
    case True
    with False show ?thesis
      by (simp add: intelligent_click_def click_schedule_def try_points_flat first_ok_append)
  next
    case f: False
    with False show ?thesis
      by (simp add: intelligent_click_def click_schedule_def try_points_flat first_ok_append
          radius_loop_flat first_ok_fail_length)
  qed
qed

lemma first_ok_prefix:
  "snd (first_ok plat n ps) = take (length (snd (first_ok plat n ps))) ps"
  by (induction ps arbitrary: n) auto

lemma first_ok_success:
  "k < length ps \<Longrightarrow> plat (n + k) (ps ! k) \<Longrightarrow>
     fst (first_ok plat n ps) \<and> length (snd (first_ok plat n ps)) \<le> Suc k"
proof (induction ps arbitrary: n k)
  case Nil
  then show ?case by simp
next
  case (Cons p ps)
  show ?case
  proof (cases k)
    case 0
    with Cons.prems show ?thesis by simp
  next
    case (Suc j)
    with Cons.prems have "j < length ps" and "plat (Suc n + j) (ps ! j)"
      by simp_all
    from Cons.IH [OF this] Suc show ?thesis by simp
  qed
qed

lemma first_ok_failures:
  "\<forall>k<m. k < length ps \<longrightarrow> \<not> plat (n + k) (ps ! k) \<Longrightarrow> m \<le> length ps \<Longrightarrow>
     fst (first_ok plat n ps) \<Longrightarrow> m < length (snd (first_ok plat n ps))"
proof (induction ps arbitrary: n m)
  case Nil
  then show ?case by simp
next
  case (Cons p ps)
  show ?case
  proof (cases m)
    case 0
    then show ?thesis by simp
  next
    case (Suc j)
    with Cons.prems(1) have p: "\<not> plat n p" by force
    have "\<forall>k<j. k < length ps \<longrightarrow> \<not> plat (Suc n + k) (ps ! k)"
      using Cons.prems(1) Suc by force
    moreover have "j \<le> length ps" using Cons.prems(2) Suc by simp
    moreover have "fst (first_ok plat (Suc n) ps)" using Cons.prems(3) p by simp
    ultimately have "j < length (snd (first_ok plat (Suc n) ps))"
      by (rule Cons.IH)
    with p Suc show ?thesis by simp
  qed
qed

lemma first_ok_last:
  "fst (first_ok plat n ps) \<Longrightarrow>
     snd (first_ok plat n ps) \<noteq> []
     \<and> plat (n + (length (snd (first_ok plat n ps)) - 1)) (last (snd (first_ok plat n ps)))"
proof (induction ps arbitrary: n)
  case Nil
  then show ?case by simp
next
  case (Cons p ps)
  show ?case
  proof (cases "plat n p")
    case True
    then show ?thesis by simp
  next
    case False
    with Cons.prems have "fst (first_ok plat (Suc n) ps)" by simp
    from Cons.IH [OF this] have ne: "snd (first_ok plat (Suc n) ps) \<noteq> []"
      and pl: "plat (Suc n + (length (snd (first_ok plat (Suc n) ps)) - 1))
                 (last (snd (first_ok plat (Suc n) ps)))"
      by simp_all
    from ne have "Suc n + (length (snd (first_ok plat (Suc n) ps)) - 1)
        = n + length (snd (first_ok plat (Suc n) ps))"
      by (cases "snd (first_ok plat (Suc n) ps)") simp_all
    with pl ne False show ?thesis by simp
  qed
qed

lemma click_schedule_length: "length (click_schedule x y m) = 37"
  by (simp add: click_schedule_def steps_def ring_def)

lemma click_schedule_take10:
  "take 10 (click_schedule x y m) =
     [(x, y), (x - 8, y - 8), (x - 8, y), (x - 8, y + 8), (x, y - 8), (x, y), (x, y + 8),
      (x + 8, y - 8), (x + 8, y), (x + 8, y + 8)]"
  by (simp add: click_schedule_def steps_def ring_def offset_by_def)

lemma click_schedule_take19:
  "take 19 (click_schedule x y m) =
     [(x, y), (x - 8, y - 8), (x - 8, y), (x - 8, y + 8), (x, y - 8), (x, y), (x, y + 8),
      (x + 8, y - 8), (x + 8, y), (x + 8, y + 8),
      (x - 12, y - 12), (x - 12, y), (x - 12, y + 12), (x, y - 12), (x, y), (x, y + 12),
      (x + 12, y - 12), (x + 12, y), (x + 12, y + 12)]"
  by (simp add: click_schedule_def steps_def ring_def offset_by_def)

lemma nth_in_take: "k < n \<Longrightarrow> n \<le> length xs \<Longrightarrow> xs ! k \<in> set (take n xs)"
  by (metis in_set_conv_nth length_take min.absorb2 nth_take)

text \<open>
  C4, as stated, fails: the grid of step 8 has nine offsets and the centre is one of
  them. On a mouse whose sixth attempt is the first to succeed, the click succeeds at
  the exact point (100, 100) again, as the fifth point of that grid.
\<close>

theorem click_grid_counterexample:
  "length steps = 9 \<and> steps ! 4 = (0, 0)
   \<and> intelligent_click (\<lambda>n p. n = 5) 100 100 24 =
       (True, [(100, 100), (92, 92), (92, 100), (92, 108), (100, 92), (100, 100)])"
  by (simp add: intelligent_click_def steps_def offset_by_def)

text \<open>
  C4, amended. The click first attempts the exact point; if that attempt fails with a
  platform error it retries at the nine offsets of the grid of step 8 (the centre among
  them), and only then at the radii 12, 18 and the configurable maximum, on a 3 by 3
  grid at each radius (the centre among them each time); it stops at the first attempt
  that succeeds.
\<close>

theorem intelligent_click_schedule:
  "intelligent_click plat x y m = first_ok plat 0 (click_schedule x y m)
   \<and> click_schedule x y m =
       [(x, y),
        (x - 8, y - 8), (x - 8, y), (x - 8, y + 8), (x, y - 8), (x, y), (x, y + 8),
        (x + 8, y - 8), (x + 8, y), (x + 8, y + 8),
        (x - 12, y - 12), (x - 12, y), (x - 12, y + 12), (x, y - 12), (x, y), (x, y + 12),
        (x + 12, y - 12), (x + 12, y), (x + 12, y + 12),
        (x - 18, y - 18), (x - 18, y), (x - 18, y + 18), (x, y - 18), (x, y), (x, y + 18),
        (x + 18, y - 18), (x + 18, y), (x + 18, y + 18),
        (x - m, y - m), (x - m, y), (x - m, y + m), (x, y - m), (x, y), (x, y + m),
        (x + m, y - m), (x + m, y), (x + m, y + m)]"
proof
  show "intelligent_click plat x y m = first_ok plat 0 (click_schedule x y m)"
    by (rule intelligent_click_flat)
  show "click_schedule x y m =
       [(x, y),
        (x - 8, y - 8), (x - 8, y), (x - 8, y + 8), (x, y - 8), (x, y), (x, y + 8),
        (x + 8, y - 8), (x + 8, y), (x + 8, y + 8),
        (x - 12, y - 12), (x - 12, y), (x - 12, y + 12), (x, y - 12), (x, y), (x, y + 12),
        (x + 12, y - 12), (x + 12, y), (x + 12, y + 12),
        (x - 18, y - 18), (x - 18, y), (x - 18, y + 18), (x, y - 18), (x, y), (x, y + 18),
        (x + 18, y - 18), (x + 18, y), (x + 18, y + 18),
        (x - m, y - m), (x - m, y), (x - m, y + m), (x, y - m), (x, y), (x, y + m),
        (x + m, y - m), (x + m, y), (x + m, y + m)]"
    by (simp add: click_schedule_def steps_def ring_def offset_by_def)
qed

theorem intelligent_click_schedule_witness:
  "intelligent_click (\<lambda>n p. p = (18, 0)) 0 0 24 =
     first_ok (\<lambda>n p. p = (18, 0)) 0 (click_schedule 0 0 24)"
  using intelligent_click_schedule [where plat = "\<lambda>n p. p = (18, 0)" and x = 0 and y = 0 and m = 24]
  by blast

text \<open>
  C5. When the attempt at the exact point and all attempts on the grid of step 8 fail
  and an attempt at radius 12 succeeds, the click reports success, its last attempt is
  the one that succeeded, at radius 12, and no attempt is made at radius 18 or beyond:
  at most 19 points are tried, the first 19 of the schedule, all within 12 pixels of
  the target. The result
  is a boolean in every case: an exception of the platform is the outcome \<open>False\<close> of
  an attempt.
\<close>

theorem click_stops_at_radius_12:
  assumes "\<forall>j<10. \<not> plat j (click_schedule x y m ! j)"
    and "10 \<le> k" and "k < 19" and "plat k (click_schedule x y m ! k)"
  shows "fst (intelligent_click plat x y m)
       \<and> 10 < length (snd (intelligent_click plat x y m))
       \<and> length (snd (intelligent_click plat x y m)) \<le> 19
       \<and> snd (intelligent_click plat x y m) =
           take (length (snd (intelligent_click plat x y m))) (click_schedule x y m)
       \<and> plat (length (snd (intelligent_click plat x y m)) - 1)
                (last (snd (intelligent_click plat x y m)))
       \<and> (\<forall>p \<in> set (snd (intelligent_click plat x y m)). \<bar>fst p - x\<bar> \<le> 12 \<and> \<bar>snd p - y\<bar> \<le> 12)"
proof -
  let ?sched = "click_schedule x y m"
  let ?r = "first_ok plat 0 ?sched"
  have flat: "intelligent_click plat x y m = ?r"
    by (rule intelligent_click_flat)
  have k: "k < length ?sched"
    using assms(3) by (simp add: click_schedule_length)
  from first_ok_success [OF k, of plat 0] assms(4)
  have ok: "fst ?r" and le: "length (snd ?r) \<le> Suc k"
    by simp_all
  have "\<forall>j<10. j < length ?sched \<longrightarrow> \<not> plat (0 + j) (?sched ! j)"
    using assms(1) by simp
  then have lo: "10 < length (snd ?r)"
    using ok first_ok_failures [where m = 10 and ps = ?sched and plat = plat and n = 0]
    by (simp add: click_schedule_length)
  have pre: "snd ?r = take (length (snd ?r)) ?sched"
    by (rule first_ok_prefix)
  have le19: "length (snd ?r) \<le> 19"
    using le assms(3) by simp
  have "set (snd ?r) \<subseteq> set (take 19 ?sched)"
    using pre set_take_subset_set_take [OF le19, of ?sched] by simp
  then have near: "\<forall>p \<in> set (snd ?r). \<bar>fst p - x\<bar> \<le> 12 \<and> \<bar>snd p - y\<bar> \<le> 12"
    unfolding click_schedule_take19 by auto
  from first_ok_last [OF ok] have lst: "plat (length (snd ?r) - 1) (last (snd ?r))"
    by simp
  from ok lo le19 pre lst near show ?thesis
    unfolding flat by blast
qed

theorem click_stops_at_radius_12_witness:
  "intelligent_click (\<lambda>n p. p = (112, 112)) 100 100 24 =
     (True, take 19 (click_schedule 100 100 24))
   \<and> length (snd (intelligent_click (\<lambda>n p. p = (112, 112)) 100 100 24)) \<le> 19"
proof -
  let ?plat = "\<lambda>(n::nat) (p::int \<times> int). p = (112, 112)"
  have fail: "\<forall>j<10. \<not> ?plat j (click_schedule 100 100 24 ! j)"
  proof (intro allI impI)
    fix j :: nat
    assume "j < 10"
    then have "click_schedule 100 100 24 ! j \<in> set (take 10 (click_schedule 100 100 24))"
      by (rule nth_in_take) (simp add: click_schedule_length)
    then show "\<not> ?plat j (click_schedule 100 100 24 ! j)"
      unfolding click_schedule_take10 by auto
  qed
  have hit: "?plat 18 (click_schedule 100 100 24 ! 18)"
    by (simp add: click_schedule_def steps_def ring_def offset_by_def)
  have lo: "(10::nat) \<le> 18" and hi: "(18::nat) < 19"
    by simp_all
  have "fst (intelligent_click ?plat 100 100 24)"
    and "length (snd (intelligent_click ?plat 100 100 24)) \<le> 19"
    using click_stops_at_radius_12 [where plat = ?plat and x = 100 and y = 100 and m = 24 and k = 18]
      fail lo hi hit
    by blast+
  moreover have "intelligent_click ?plat 100 100 24 = (True, take 19 (click_schedule 100 100 24))"
    by (simp add: intelligent_click_def click_schedule_def steps_def ring_def offset_by_def)
  ultimately show ?thesis
    by simp
qed


subsection \<open>Region extractor\<close>

lemma update_fresh: "k \<notin> fst ` set d \<Longrightarrow> AList.update k v d = d @ [(k, v)]"
  by (induction d) auto

lemma snips_loop_explicit:
  assumes "distinct (map fst szs)"
    and "\<forall>n \<in> set (map fst szs). ''img_'' @ n \<notin> fst ` set results \<and> ''img_'' @ n \<notin> fst ` set origins"
  shows "snips_loop env outdir sw sh x y szs (results, origins, saved) =
     (results @ map (result_of env outdir sw sh x y) (filter (kept env outdir sw sh x y) szs),
      origins @ map (origin_of sw sh x y) (filter (kept env outdir sw sh x y) szs),
      saved @ map (saved_of env outdir sw sh x y) (filter (kept env outdir sw sh x y) szs))"
  using assms
proof (induction szs arbitrary: results origins saved)
  case Nil
  then show ?case by simp
next
  case (Cons s szs)
  obtain name wh where s: "s = (name, wh)" by (cases s)
  obtain left top' right bottom where box: "clip_box sw sh x y wh = (left, top', right, bottom)"
    by (cases "clip_box sw sh x y wh")
  have d: "distinct (map fst szs)" using Cons.prems(1) by simp
  show ?case
  proof (cases "kept env outdir sw sh x y s")
    case True
    let ?path = "snip_path env outdir name (left, top', right, bottom)"
    from True have k: "left < right" "top' < bottom" "save_ok env ?path"
      by (simp_all add: kept_def s box)
    have fresh: "''img_'' @ name \<notin> fst ` set results" "''img_'' @ name \<notin> fst ` set origins"
      using Cons.prems(2) by (simp_all add: s)
    have step: "snips_loop env outdir sw sh x y (s # szs) (results, origins, saved) =
        snips_loop env outdir sw sh x y szs
          (results @ [(''img_'' @ name, ?path)], origins @ [(''img_'' @ name, (left, top'))],
           saved @ [(?path, (left, top', right, bottom))])"
      using k fresh by (simp add: s box Let_def update_fresh)
    have pre: "\<forall>n \<in> set (map fst szs).
        ''img_'' @ n \<notin> fst ` set (results @ [(''img_'' @ name, ?path)])
        \<and> ''img_'' @ n \<notin> fst ` set (origins @ [(''img_'' @ name, (left, top'))])"
      using Cons.prems by (auto simp: s)
    show ?thesis
      unfolding step Cons.IH [OF d pre]
      using True by (simp add: s box result_of_def origin_of_def saved_of_def)
  next
    case False
    then have step: "snips_loop env outdir sw sh x y (s # szs) (results, origins, saved) =
        snips_loop env outdir sw sh x y szs (results, origins, saved)"
      by (auto simp: s box kept_def)
    have pre: "\<forall>n \<in> set (map fst szs).
        ''img_'' @ n \<notin> fst ` set results \<and> ''img_'' @ n \<notin> fst ` set origins"
      using Cons.prems(2) by simp
    show ?thesis
      unfolding step Cons.IH [OF d pre] using False by simp
  qed
qed

lemma clip_box_bounds:
  "clip_box sw sh x y wh = (left, top', right, bottom) \<Longrightarrow>
     0 \<le> left \<and> right \<le> sw \<and> 0 \<le> top' \<and> bottom \<le> sh"
  by (auto simp: clip_box_def Let_def)

lemma sizes_names: "distinct (map fst sizes)" "length sizes = 5"
  by (simp_all add: sizes_def)

lemma save_multi_snips_explicit:
  assumes "screen_size env = Some (sw, sh)"
  shows "save_multi_snips env outdir x y =
     (map (result_of env outdir sw sh x y) (filter (kept env outdir sw sh x y) sizes),
      map (origin_of sw sh x y) (filter (kept env outdir sw sh x y) sizes),
      map (saved_of env outdir sw sh x y) (filter (kept env outdir sw sh x y) sizes))"
  using snips_loop_explicit [OF sizes_names(1), of "[]" "[]" env outdir sw sh x y "[]"] assms
  by (simp add: save_multi_snips_def)

text \<open>
  C7. For every frame and every point, the extractor returns at most five crops, one per
  fixed size; the box of each returned crop is not empty and lies within the frame, the
  file written for it holds that box, and its top-left origin is recorded under the same
  key; a size whose clipped box is empty is left out. The function returns in every
  case: a crop that cannot be saved is left out as well.
\<close>

theorem save_multi_snips_crops:
  assumes "save_multi_snips env outdir x y = (results, origins, saved)"
  shows "length results \<le> 5 \<and> distinct (map fst results) \<and> map fst origins = map fst results
     \<and> (\<forall>(key, path) \<in> set results.
           \<exists>name wh sw sh left top' right bottom.
             (name, wh) \<in> set sizes \<and> key = ''img_'' @ name \<and> screen_size env = Some (sw, sh)
             \<and> clip_box sw sh x y wh = (left, top', right, bottom)
             \<and> (path, (left, top', right, bottom)) \<in> set saved
             \<and> (key, (left, top')) \<in> set origins
             \<and> 0 \<le> left \<and> left < right \<and> right \<le> sw
             \<and> 0 \<le> top' \<and> top' < bottom \<and> bottom \<le> sh)
     \<and> (\<forall>(name, wh) \<in> set sizes.
           \<forall>sw sh left top' right bottom.
             screen_size env = Some (sw, sh) \<longrightarrow>
             clip_box sw sh x y wh = (left, top', right, bottom) \<longrightarrow>
             right \<le> left \<or> bottom \<le> top' \<longrightarrow>
             ''img_'' @ name \<notin> fst ` set results)"
proof (cases "screen_size env")
  case None
  with assms have "results = []" "origins = []"
    by (simp_all add: save_multi_snips_def)
  with None show ?thesis by simp
next
  case (Some sz)
  obtain sw sh where sz: "sz = (sw, sh)" by (cases sz)
  let ?K = "filter (kept env outdir sw sh x y) sizes"
  from assms Some sz have res: "results = map (result_of env outdir sw sh x y) ?K"
    and ori: "origins = map (origin_of sw sh x y) ?K"
    and sav: "saved = map (saved_of env outdir sw sh x y) ?K"
    by (simp_all add: save_multi_snips_explicit)
  have keys: "map fst results = map (\<lambda>n. ''img_'' @ n) (map fst ?K)"
    by (simp add: res result_of_def comp_def)
  have len: "length results \<le> 5"
    using length_filter_le [of "kept env outdir sw sh x y" sizes]
    by (simp add: res sizes_names(2))
  have "distinct (map fst ?K)"
    using sizes_names(1) by (rule distinct_map_filter)
  then have dist: "distinct (map fst results)"
    unfolding keys by (subst distinct_map) (auto intro: inj_onI)
  have same: "map fst origins = map fst results"
    by (simp add: res ori result_of_def origin_of_def comp_def)
  have crops: "\<exists>name wh sw sh left top' right bottom.
             (name, wh) \<in> set sizes \<and> key = ''img_'' @ name \<and> screen_size env = Some (sw, sh)
             \<and> clip_box sw sh x y wh = (left, top', right, bottom)
             \<and> (path, (left, top', right, bottom)) \<in> set saved
             \<and> (key, (left, top')) \<in> set origins
             \<and> 0 \<le> left \<and> left < right \<and> right \<le> sw
             \<and> 0 \<le> top' \<and> top' < bottom \<and> bottom \<le> sh"
    if "(key, path) \<in> set results" for key path
  proof -
    from that obtain s where s: "s \<in> set sizes" "kept env outdir sw sh x y s"
      and kp: "(key, path) = result_of env outdir sw sh x y s"
      by (auto simp: res)
    obtain name wh where nw: "s = (name, wh)" by (cases s)
    obtain left top' right bottom where box: "clip_box sw sh x y wh = (left, top', right, bottom)"
      by (cases "clip_box sw sh x y wh")
    from s(2) have ne: "left < right" "top' < bottom"
      by (simp_all add: kept_def nw box)
    from clip_box_bounds [OF box] have bd: "0 \<le> left" "right \<le> sw" "0 \<le> top'" "bottom \<le> sh"
      by simp_all
    have "(path, (left, top', right, bottom)) \<in> set saved"
      using s kp by (force simp: sav saved_of_def result_of_def nw box)
    moreover have "(key, (left, top')) \<in> set origins"
      using s kp by (force simp: ori origin_of_def result_of_def nw box)
    moreover have "(name, wh) \<in> set sizes" "key = ''img_'' @ name"
      using s(1) kp by (simp_all add: nw result_of_def)
    ultimately show ?thesis
      using Some sz box ne bd by blast
  qed
  have omitted: "''img_'' @ name \<notin> fst ` set results"
    if "(name, wh) \<in> set sizes" and "screen_size env = Some (sw', sh')"
      and "clip_box sw' sh' x y wh = (left, top', right, bottom)"
      and "right \<le> left \<or> bottom \<le> top'"
    for name wh sw' sh' left top' right bottom
  proof
    assume "''img_'' @ name \<in> fst ` set results"
    then obtain s where s: "s \<in> set sizes" "kept env outdir sw sh x y s"
      and n: "''img_'' @ fst s = ''img_'' @ name"
      by (auto simp: res result_of_def)
    from n have "fst s = name" by simp
    with s(1) that(1) sizes_names(1) have "s = (name, wh)"
      by (metis eq_key_imp_eq_value prod.collapse)
    moreover from that(2) Some sz have "sw' = sw" "sh' = sh" by simp_all
    ultimately show False
      using s(2) that(3,4) by (auto simp: kept_def)
  qed
  from len dist same crops omitted show ?thesis
    by blast
qed

theorem save_multi_snips_crops_witness:
  "save_multi_snips ex_capture ''rec'' 1200 100 =
     ([(''img_large'', ''rec/images/large_0123456789abcdef.png''),
       (''img_context'', ''rec/images/context_0123456789abcdef.png'')],
      [(''img_large'', (960, 0)), (''img_context'', (800, 0))],
      [(''rec/images/large_0123456789abcdef.png'', (960, 0, 1000, 360)),
       (''rec/images/context_0123456789abcdef.png'', (800, 0, 1000, 600))])
   \<and> length (fst (save_multi_snips ex_capture ''rec'' 1200 100)) \<le> 5
   \<and> ''img_micro'' \<notin> fst ` set (fst (save_multi_snips ex_capture ''rec'' 1200 100))"
proof -
  have eq: "save_multi_snips ex_capture ''rec'' 1200 100 =
     ([(''img_large'', ''rec/images/large_0123456789abcdef.png''),
       (''img_context'', ''rec/images/context_0123456789abcdef.png'')],
      [(''img_large'', (960, 0)), (''img_context'', (800, 0))],
      [(''rec/images/large_0123456789abcdef.png'', (960, 0, 1000, 360)),
       (''rec/images/context_0123456789abcdef.png'', (800, 0, 1000, 600))])"
    by (simp add: save_multi_snips_def ex_capture_def sizes_def SNIP_MICRO_def SNIP_SMALL_def
        SNIP_MEDIUM_def SNIP_LARGE_def SNIP_CONTEXT_def clip_box_def snip_path_def truthy_def
        Let_def)
  from save_multi_snips_crops [OF eq] have "length
     [(''img_large'', ''rec/images/large_0123456789abcdef.png''),
      (''img_context'', ''rec/images/context_0123456789abcdef.png'')] \<le> 5"
    by blast
  with eq show ?thesis
    by simp
qed


subsection \<open>Replay loop\<close>

lemma replay_event_counters:
  "success (replay_event env sd rw wr i ev st) + fail (replay_event env sd rw wr i ev st) =
     success st + fail st + (if counted ev then 1 else 0)"
  by (auto simp: replay_event_def counted_def Let_def split: sum.splits prod.splits)

lemma replay_event_performed:
  "set (performed (replay_event env sd rw wr i ev st)) \<subseteq>
     set (performed st) \<union> {e. fst e = i}"
  by (auto simp: replay_event_def Let_def split: sum.splits prod.splits)

lemma replay_loop_take:
  "k < length evs \<Longrightarrow> abort_is_set env (i + k) Loop_head \<Longrightarrow>
     replay_loop env sd rw wr i evs st = replay_loop env sd rw wr i (take k evs) st"
proof (induction evs arbitrary: i k st)
  case Nil
  then show ?case by simp
next
  case (Cons ev evs)
  show ?case
  proof (cases k)
    case 0
    with Cons.prems show ?thesis by simp
  next
    case (Suc j)
    with Cons.prems have "j < length evs" "abort_is_set env (Suc i + j) Loop_head"
      by simp_all
    from Cons.IH [OF this] Suc show ?thesis by simp
  qed
qed

lemma replay_loop_counters:
  "\<forall>j<length evs. \<not> abort_is_set env (i + j) Loop_head \<Longrightarrow>
     success (replay_loop env sd rw wr i evs st) + fail (replay_loop env sd rw wr i evs st) =
       success st + fail st + length (filter counted evs)"
proof (induction evs arbitrary: i st)
  case Nil
  then show ?case by simp
next
  case (Cons ev evs)
  from Cons.prems have h: "\<not> abort_is_set env i Loop_head"
    by force
  have "\<forall>j<length evs. \<not> abort_is_set env (Suc i + j) Loop_head"
    using Cons.prems by force
  from Cons.IH [OF this] h show ?case
    by (simp add: replay_event_counters)
qed

lemma replay_loop_performed:
  "set (performed (replay_loop env sd rw wr i evs st)) \<subseteq>
     set (performed st) \<union> {e. i \<le> fst e \<and> fst e < i + length evs}"
proof (induction evs arbitrary: i st)
  case Nil
  then show ?case by simp
next
  case (Cons ev evs)
  show ?case
  proof (cases "abort_is_set env i Loop_head")
    case True
    then show ?thesis by auto
  next
    case False
    have "set (performed (replay_loop env sd rw wr (Suc i) evs (replay_event env sd rw wr i ev st)))
        \<subseteq> set (performed (replay_event env sd rw wr i ev st))
          \<union> {e. Suc i \<le> fst e \<and> fst e < Suc i + length evs}"
      by (rule Cons.IH)
    with replay_event_performed [of env sd rw wr i ev st] False show ?thesis
      by auto
  qed
qed

text \<open>
  C9, as stated, fails: the flag is not read again after the pacing sleep. When it is
  set while the loop sleeps before the first event, the action of that event is still
  performed, with the flag set, and is counted.
\<close>

theorem replay_abort_counterexample:
  "abort_is_set ex_replay_env 0 After_wait
   \<and> performed (replay_events ex_replay_env ''rec'' (0, 0, 1440, 900) (50, 50, 420, 860) [ex_key, ex_key])
       = [(0, Key_event, True)]
   \<and> success (replay_events ex_replay_env ''rec'' (0, 0, 1440, 900) (50, 50, 420, 860) [ex_key, ex_key]) = 1"
  by (simp add: replay_events_def replay_event_def ex_replay_env_def ex_key_def Let_def)

text \<open>
  C9, amended. The abort signal is read at the head of each iteration only. When it is
  first found set at the head of the iteration of event \<open>k\<close>, the replay stops before
  the wait and the action of that event: the outcome is that of replaying the first \<open>k\<close>
  events alone, the two counters together count exactly the key, scroll and click
  events among them, and no action of event \<open>k\<close> or of a later event is performed. (An
  event whose iteration began before the signal was set is still performed.)
\<close>

theorem replay_stops_at_loop_head:
  assumes "k < length events" and "abort_is_set env k Loop_head"
    and "\<forall>j<k. \<not> abort_is_set env j Loop_head"
  shows "replay_events env script_dir rec_win win_rect events =
           replay_events env script_dir rec_win win_rect (take k events)
       \<and> success (replay_events env script_dir rec_win win_rect events)
           + fail (replay_events env script_dir rec_win win_rect events) =
           length (filter counted (take k events))
       \<and> (\<forall>e \<in> set (performed (replay_events env script_dir rec_win win_rect events)). fst e < k)"
proof -
  let ?st0 = "\<lparr>success = 0, fail = 0, last_ts = 0, slept = 0, performed = []\<rparr>"
  have eq: "replay_events env script_dir rec_win win_rect events =
      replay_events env script_dir rec_win win_rect (take k events)"
    unfolding replay_events_def
    using replay_loop_take [of k events env 0] assms(1,2) by simp
  have len: "length (take k events) = k"
    using assms(1) by simp
  have "\<forall>j<length (take k events). \<not> abort_is_set env (0 + j) Loop_head"
    using assms(3) by simp
  from replay_loop_counters [OF this, of script_dir rec_win win_rect ?st0]
  have cnt: "success (replay_events env script_dir rec_win win_rect (take k events))
           + fail (replay_events env script_dir rec_win win_rect (take k events)) =
           length (filter counted (take k events))"
    by (simp add: replay_events_def)
  have "set (performed (replay_events env script_dir rec_win win_rect (take k events)))
      \<subseteq> {e. fst e < k}"
    using replay_loop_performed [of env script_dir rec_win win_rect 0 "take k events" ?st0] len
    by (auto simp: replay_events_def)
  with eq cnt show ?thesis
    by auto
qed

theorem replay_stops_at_loop_head_witness:
  "replay_events ex_replay_env ''rec'' (0, 0, 1440, 900) (50, 50, 420, 860) [ex_key, ex_key] =
     replay_events ex_replay_env ''rec'' (0, 0, 1440, 900) (50, 50, 420, 860) [ex_key]
   \<and> success (replay_events ex_replay_env ''rec'' (0, 0, 1440, 900) (50, 50, 420, 860) [ex_key, ex_key])
       + fail (replay_events ex_replay_env ''rec'' (0, 0, 1440, 900) (50, 50, 420, 860) [ex_key, ex_key]) = 1"
proof -
  have k: "(1::nat) < length [ex_key, ex_key]"
    by simp
  have a: "abort_is_set ex_replay_env 1 Loop_head"
    by (simp add: ex_replay_env_def)
  have n: "\<forall>j<1. \<not> abort_is_set ex_replay_env j Loop_head"
    by (simp add: ex_replay_env_def)
  have c: "counted ex_key"
    by (simp add: counted_def ex_key_def)
  let ?full = "replay_events ex_replay_env ''rec'' (0, 0, 1440, 900) (50, 50, 420, 860) [ex_key, ex_key]"
  from replay_stops_at_loop_head [OF k a n, of "''rec''" "(0, 0, 1440, 900)" "(50, 50, 420, 860)"]
  have e1: "?full = replay_events ex_replay_env ''rec'' (0, 0, 1440, 900) (50, 50, 420, 860)
                      (take 1 [ex_key, ex_key])"
    and e2: "success ?full + fail ?full = length (filter counted (take 1 [ex_key, ex_key]))"
    by blast+
  from e1 have g1: "?full = replay_events ex_replay_env ''rec'' (0, 0, 1440, 900) (50, 50, 420, 860) [ex_key]"
    by simp
  from e2 c have g2: "success ?full + fail ?full = 1"
    by simp
  from g1 g2 show ?thesis
    by (rule conjI)
qed


end
